theory Spec2Isabelle
  imports Complex_Main "HOL-Library.Product_Lexorder" "HOL-Library.AList" "HOL-Library.Multiset"
begin

section \<open>Costs report: the billing table of \<open>costs_report.py\<close>\<close>

text \<open>
  The module collects, for each AWS account, a dict from \<open>(year, month)\<close> to that month's
  bill, renders one table row per account with a trend indicator, sorts the rows, adds a
  TOTAL row and hands the rows to \<open>tabulate\<close>.

  Conventions of the embedding.
  \<^item> A Python \<open>float\<close> amount is an exact rational (\<open>rat\<close>): the arithmetic of the source is
    modelled without binary rounding, and \<open>inf\<close>, \<open>nan\<close> and \<open>-0.0\<close> have no counterpart.
  \<^item> A Python \<open>str\<close> is a \<open>string\<close> whose characters are code points below 256; on these the
    regular-expression class \<open>\d\<close> is exactly the ASCII digits. The two arrows used as trend
    indicators lie outside that range and are written as their UTF-8 bytes.
  \<^item> A \<open>dict\<close> is an association list in insertion order; its keys are distinct.
  \<^item> An exception is a value \<open>Inl e\<close> of a sum type.
\<close>

subsection \<open>Errors\<close>

datatype error = ZeroDivisionError | ValueError | IndexError | TypeError | RecursionError
  | OverflowError

subsection \<open>Decimal digits\<close>

definition is_digit :: "char \<Rightarrow> bool" where
  "is_digit c \<longleftrightarrow> c \<in> set ''0123456789''"

definition digit_char :: "nat \<Rightarrow> char" where
  "digit_char d = ''0123456789'' ! (d mod 10)"

definition digit_val :: "char \<Rightarrow> nat" where
  "digit_val c = of_char c - of_char (CHR ''0'')"

text \<open>The decimal numeral of a natural number, without leading zeros (\<open>0\<close> is \<open>''0''\<close>).\<close>

fun str_nat :: "nat \<Rightarrow> string" where
  "str_nat n = (if n < 10 then [digit_char n] else str_nat (n div 10) @ [digit_char (n mod 10)])"

declare str_nat.simps [simp del]

definition str_int :: "int \<Rightarrow> string" where
  "str_int i = (if i < 0 then CHR ''-'' # str_nat (nat (- i)) else str_nat (nat i))"

text \<open>The value of a string of decimal digits, read left to right.\<close>

definition nat_of_digits :: "string \<Rightarrow> nat" where
  "nat_of_digits ds = foldl (\<lambda>acc c. 10 * acc + digit_val c) 0 ds"

subsection \<open>\<open>"%.2f" % v\<close> and \<open>{m:2d}\<close>\<close>

text \<open>
  \<open>"%.2f" % v\<close> prints the decimal numeral with two fractional digits nearest to the exact
  value of \<open>v\<close>, a tie going to the even neighbour, and a minus sign whenever \<open>v\<close> is
  negative (so a small negative value prints as \<open>-0.00\<close>).
\<close>

definition round_half_even :: "rat \<Rightarrow> nat" where
  "round_half_even x =
     (let q = \<lfloor>x\<rfloor>; r = x - of_int q
      in nat (if r < 1 / 2 then q else if 1 / 2 < r then q + 1
              else if even q then q else q + 1))"

definition fmt_2f :: "rat \<Rightarrow> string" where
  "fmt_2f v =
     (let n = round_half_even (\<bar>v\<bar> * 100)
      in (if v < 0 then ''-'' else '''') @ str_nat (n div 100) @ ''.''
           @ [digit_char (n div 10), digit_char n])"

text \<open>\<open>{m:2d}\<close>: the decimal numeral of an integer, padded with spaces on the left to width 2.\<close>

definition fmt_2d :: "int \<Rightarrow> string" where
  "fmt_2d m = (let s = str_int m in replicate (2 - length s) CHR '' '' @ s)"

subsection \<open>\<open>pprint_currency\<close>\<close>

text \<open>
  \<open>re.sub(r"^(-?\d+)(\d{3})", r"\g<1>,\g<2>", orig)\<close>. The pattern is anchored at the start of
  the string, so it matches at most once. \<open>-?\<close> takes a leading minus sign if there is one,
  the greedy \<open>\d+\<close> then runs over the whole leading block of digits and gives back exactly
  three of them to \<open>\d{3}\<close>. There is a match exactly when that block has at least four
  digits (without the sign no digit can be matched at a leading \<open>-\<close>), and the substitution
  puts a comma before the last three digits of the block.
\<close>

definition re_sub :: "string \<Rightarrow> string" where
  "re_sub orig =
     (let sign = takeWhile (\<lambda>c. c = CHR ''-'') (take 1 orig);
          body = drop (length sign) orig;
          ds = takeWhile is_digit body;
          rest = dropWhile is_digit body;
          n = length ds
      in if 4 \<le> n then sign @ take (n - 3) ds @ '','' @ drop (n - 3) ds @ rest else orig)"

text \<open>The number of digits in the leading block that \<open>re_sub\<close> looks at.\<close>

definition lead_digits :: "string \<Rightarrow> nat" where
  "lead_digits s =
     length (takeWhile is_digit (drop (length (takeWhile (\<lambda>c. c = CHR ''-'') (take 1 s))) s))"

text \<open>The arguments on which \<open>pprint_currency\<close> has a result: a float or a string.\<close>

datatype pyval = PFloat rat | PStr string

text \<open>
  The result of the recursion of \<open>pprint_currency\<close> on a string argument, when the stack of
  the interpreter does not run out: the recursive call always passes the string \<open>new\<close>, so
  only the first call can take the \<open>isinstance(v, float)\<close> branch.
\<close>

lemma re_sub_lead_digits: "re_sub s \<noteq> s \<Longrightarrow> lead_digits (re_sub s) < lead_digits s"
proof -
  assume ne: "re_sub s \<noteq> s"
  define sign where "sign = takeWhile (\<lambda>c. c = CHR ''-'') (take 1 s)"
  define body where "body = drop (length sign) s"
  define ds where "ds = takeWhile is_digit body"
  define rest where "rest = dropWhile is_digit body"
  have n4: "4 \<le> length ds"
    using ne unfolding re_sub_def Let_def sign_def body_def ds_def by (auto split: if_splits)
  have new: "re_sub s = sign @ take (length ds - 3) ds @ '','' @ drop (length ds - 3) ds @ rest"
    using n4 unfolding re_sub_def Let_def sign_def body_def ds_def rest_def by simp
  have dsd: "\<forall>c \<in> set ds. is_digit c"
    unfolding ds_def by (auto dest: set_takeWhileD)
  obtain d ds' where dcons: "take (length ds - 3) ds = d # ds'"
    using n4 by (cases "take (length ds - 3) ds") auto
  have dd: "is_digit d" using dsd dcons by (metis in_set_takeD list.set_intros(1))
  have dnm: "d \<noteq> CHR ''-''" using dd by (auto simp: is_digit_def)
  have sign_cases: "sign = [] \<or> sign = ''-''"
    unfolding sign_def by (cases s) auto
  have sign_new: "takeWhile (\<lambda>c. c = CHR ''-'') (take 1 (re_sub s)) = sign"
    using sign_cases dnm unfolding new dcons by auto
  have "drop (length sign) (re_sub s) = take (length ds - 3) ds @ '','' @ drop (length ds - 3) ds @ rest"
    unfolding new by simp
  moreover have "takeWhile is_digit (take (length ds - 3) ds @ '','' @ drop (length ds - 3) ds @ rest)
      = take (length ds - 3) ds"
  proof -
    have "\<forall>c \<in> set (take (length ds - 3) ds). is_digit c"
      using dsd by (meson in_set_takeD)
    moreover have "\<not> is_digit CHR '',''" by (simp add: is_digit_def)
    ultimately show ?thesis by (simp add: takeWhile_append2)
  qed
  ultimately have "lead_digits (re_sub s) = length ds - 3"
    unfolding lead_digits_def sign_new using n4 by simp
  moreover have "lead_digits s = length ds"
    unfolding lead_digits_def ds_def body_def sign_def by simp
  ultimately show ?thesis using n4 by simp
qed

function pprint_str :: "string \<Rightarrow> string" where
  "pprint_str orig = (let new = re_sub orig in if orig = new then new else pprint_str new)"
  by pat_completeness auto
termination
  by (relation "measure lead_digits") (auto dest: re_sub_lead_digits [OF not_sym])

declare pprint_str.simps [simp del]

text \<open>The string \<open>orig\<close> of the first call: \<open>"%.2f" % v\<close> for a float, \<open>v\<close> itself otherwise.\<close>

definition orig_of :: "pyval \<Rightarrow> string" where
  "orig_of v = (case v of PFloat x \<Rightarrow> fmt_2f x | PStr s \<Rightarrow> s)"

definition pprint_currency :: "pyval \<Rightarrow> string" where
  "pprint_currency v = pprint_str (orig_of v)"

text \<open>
  The call itself, with its two failures. An argument that is neither a float nor a str
  (\<open>IntVal\<close>: an int such as \<open>0\<close>) takes the \<open>else\<close> branch and reaches \<open>re.sub\<close>, which raises
  \<open>TypeError\<close>. Every nested call of \<open>pprint_currency\<close> takes a frame of the interpreter's
  stack, and \<open>RecursionError\<close> is raised when none is left: \<open>frames\<close> is the number of nested
  calls the interpreter still allows (at most 1000 by default).
\<close>

datatype argument = Val pyval | IntVal int

fun pprint_currency_call :: "nat \<Rightarrow> argument \<Rightarrow> error + string" where
  "pprint_currency_call 0 a = Inl RecursionError"
| "pprint_currency_call (Suc frames) (IntVal i) = Inl TypeError"
| "pprint_currency_call (Suc frames) (Val v) =
     (let orig = orig_of v;
          new = re_sub orig
      in if orig = new then Inr new else pprint_currency_call frames (Val (PStr new)))"

subsection \<open>\<open>average\<close>\<close>

text \<open>\<open>sum(values) / len(values)\<close>: the division raises on the empty list.\<close>

definition average :: "rat list \<Rightarrow> error + rat" where
  "average values =
     (if length values = 0 then Inl ZeroDivisionError
      else Inr (sum_list values / of_nat (length values)))"

text \<open>Float division \<open>a / b\<close> and the truncation \<open>int(x)\<close> (towards zero).\<close>

definition py_div :: "rat \<Rightarrow> rat \<Rightarrow> error + rat" where
  "py_div a b = (if b = 0 then Inl ZeroDivisionError else Inr (a / b))"

definition py_int :: "rat \<Rightarrow> int" where
  "py_int x = (if 0 \<le> x then \<lfloor>x\<rfloor> else \<lceil>x\<rceil>)"

subsection \<open>\<open>_render_row\<close>\<close>

text \<open>
  A month key is \<open>(year, month)\<close>; the bills of one account are the items of its dict.
  \<open>sorted(per_month_bills.items())\<close> compares the items as tuples, which is the
  lexicographic order on \<open>((year, month), total)\<close>.
\<close>

type_synonym month_key = "int \<times> int"

type_synonym bills = "(month_key \<times> rat) list"

type_synonym row = "string list"

text \<open>The arrows U+2193 and U+219F, in UTF-8.\<close>

definition down_arrow :: string where
  "down_arrow = [CHR 0xE2, CHR 0x86, CHR 0x93]"

definition up_arrow :: string where
  "up_arrow = [CHR 0xE2, CHR 0x86, CHR 0x9F]"

text \<open>
  The first statements of \<open>_render_row\<close>, up to the value of the local variable
  \<open>prev_month_average\<close>. The starred assignment \<open>*prev_months, this_month = ...\<close> raises
  \<open>ValueError\<close> on the empty list; zero totals are skipped before averaging.
\<close>

definition prev_month_average :: "bills \<Rightarrow> error + rat" where
  "prev_month_average per_month_bills =
     (let items = sort per_month_bills
      in if items = [] then Inl ValueError
         else
           let prev_months = butlast items
           in average [total \<leftarrow> map snd prev_months. total \<noteq> 0])"

text \<open>The local variable \<open>this_month_total\<close>, read once the unpacking has succeeded.\<close>

definition this_month_total :: "bills \<Rightarrow> rat" where
  "this_month_total per_month_bills = snd (last (sort per_month_bills))"

text \<open>
  The row is \<open>[label, average, this month, gain, loss]\<close>, where the source puts the
  down arrow into \<open>gain\<close> and the up arrows into \<open>loss\<close>.
\<close>

definition render_row :: "string \<Rightarrow> bills \<Rightarrow> error + row" where
  "render_row label per_month_bills =
     (case prev_month_average per_month_bills of
        Inl e \<Rightarrow> Inl e
      | Inr avg \<Rightarrow>
          let total = this_month_total per_month_bills
          in if avg * (95 / 100) > total then
               (case py_div total avg of
                  Inl e \<Rightarrow> Inl e
                | Inr q \<Rightarrow>
                    let reduction = py_int ((1 - q) * 100)
                    in Inr [label,
                            pprint_currency (PFloat avg),
                            pprint_currency (PFloat total),
                            down_arrow @ '' '' @ fmt_2d reduction @ ''%'',
                            []])
             else if avg * (105 / 100) \<le> total then
               (case py_div total avg of
                  Inl e \<Rightarrow> Inl e
                | Inr q \<Rightarrow>
                    let extra_spend = py_int ((q - 1) * 100)
                    in Inr [label,
                            pprint_currency (PFloat avg),
                            pprint_currency (PFloat total),
                            [],
                            up_arrow @ up_arrow @ '' '' @ fmt_2d extra_spend @ ''%''])
             else
               Inr [label,
                    pprint_currency (PFloat avg),
                    pprint_currency (PFloat total),
                    [],
                    []])"

subsection \<open>\<open>create_billing_table\<close>\<close>

type_synonym billing_data = "(string \<times> bills) list"

text \<open>The list comprehension over the accounts: the first failing row raises.\<close>

fun render_rows :: "billing_data \<Rightarrow> error + row list" where
  "render_rows [] = Inr []"
| "render_rows ((account_name, per_month_bills) # bd) =
     (case render_row account_name per_month_bills of
        Inl e \<Rightarrow> Inl e
      | Inr r \<Rightarrow> (case render_rows bd of Inl e \<Rightarrow> Inl e | Inr rs \<Rightarrow> Inr (r # rs)))"

text \<open>
  \<open>float(s)\<close> on the numerals the table contains: an optional minus sign, digits, and
  optionally a point and more digits. Every other string is \<open>ValueError\<close> here; Python
  accepts further spellings (exponents, \<open>inf\<close>, surrounding blanks) that no cell of a row
  rendered from rational amounts has.
\<close>

definition py_float :: "string \<Rightarrow> error + rat" where
  "py_float s =
     (let neg = (take 1 s = ''-'');
          body = (if neg then drop 1 s else s);
          ip = takeWhile is_digit body;
          rest = dropWhile is_digit body;
          fp = drop 1 rest;
          sgn = (if neg then - 1 else 1)
      in if rest = [] \<and> ip \<noteq> [] then Inr (sgn * of_nat (nat_of_digits ip))
         else if take 1 rest = ''.'' \<and> list_all is_digit fp \<and> (ip \<noteq> [] \<or> fp \<noteq> [])
           then Inr (sgn * (of_nat (nat_of_digits ip)
                            + of_nat (nat_of_digits fp) / 10 ^ length fp))
         else Inl ValueError)"

text \<open>
  The sort key \<open>float(r[2].replace(",", ""))\<close> of a row; \<open>r[2]\<close> raises \<open>IndexError\<close> on a
  row of fewer than three cells.
\<close>

definition row_key :: "row \<Rightarrow> error + rat" where
  "row_key r =
     (if length r \<le> 2 then Inl IndexError
      else py_float (filter (\<lambda>c. c \<noteq> CHR '','') (r ! 2)))"

text \<open>\<open>sorted\<close> computes the key of every element first; the first failing key raises.\<close>

fun with_keys :: "row list \<Rightarrow> error + (rat \<times> row) list" where
  "with_keys [] = Inr []"
| "with_keys (r # rs) =
     (case row_key r of
        Inl e \<Rightarrow> Inl e
      | Inr k \<Rightarrow> (case with_keys rs of Inl e \<Rightarrow> Inl e | Inr krs \<Rightarrow> Inr ((k, r) # krs)))"

text \<open>
  \<open>sorted(rows, key=..., reverse=True)\<close>: a stable sort in which every comparison of keys
  is reversed, that is a stable ascending sort on the negated keys.
\<close>

definition sorted_reverse :: "row list \<Rightarrow> error + row list" where
  "sorted_reverse rows =
     (case with_keys rows of
        Inl e \<Rightarrow> Inl e
      | Inr krs \<Rightarrow> Inr (map snd (sort_key (\<lambda>kr. - fst kr) krs)))"

text \<open>
  \<open>total_bills[month] += x\<close> on a \<open>defaultdict(int)\<close>: a missing month starts at \<open>0\<close> and is
  appended to the dict, a present one is updated in place.
\<close>

definition add_to_month :: "month_key \<Rightarrow> rat \<Rightarrow> bills \<Rightarrow> bills" where
  "add_to_month month x total_bills =
     AList.update month ((case map_of total_bills month of None \<Rightarrow> 0 | Some t \<Rightarrow> t) + x) total_bills"

text \<open>The inner loop over the months of one account, with the backfill of zero amounts.\<close>

fun add_months :: "bills \<Rightarrow> bills \<Rightarrow> bills \<Rightarrow> error + bills" where
  "add_months per_month_bills [] total_bills = Inr total_bills"
| "add_months per_month_bills ((month, amount) # rest) total_bills =
     (if amount = 0 then
        (case average [v \<leftarrow> map snd per_month_bills. v > 0] of
           Inl e \<Rightarrow> Inl e
         | Inr a \<Rightarrow> add_months per_month_bills rest (add_to_month month a total_bills))
      else add_months per_month_bills rest (add_to_month month amount total_bills))"

text \<open>The outer loop over the accounts.\<close>

fun add_accounts :: "billing_data \<Rightarrow> bills \<Rightarrow> error + bills" where
  "add_accounts [] total_bills = Inr total_bills"
| "add_accounts ((name, per_month_bills) # bd) total_bills =
     (case add_months per_month_bills per_month_bills total_bills of
        Inl e \<Rightarrow> Inl e
      | Inr total_bills' \<Rightarrow> add_accounts bd total_bills')"

definition separator_row :: row where
  "separator_row =
     [''-------------'', ''-------------------'', ''----------------'', ''------'', ''------'']"

text \<open>
  \<open>create_billing_table\<close> up to the call of \<open>tabulate.tabulate\<close>: the list \<open>rows\<close> that is
  handed to the library, which lays the rows out in the order of the list.
\<close>

definition create_billing_table :: "billing_data \<Rightarrow> error + row list" where
  "create_billing_table billing_data =
     (case render_rows billing_data of
        Inl e \<Rightarrow> Inl e
      | Inr rows \<Rightarrow>
          (case sorted_reverse rows of
             Inl e \<Rightarrow> Inl e
           | Inr rows' \<Rightarrow>
               (case add_accounts billing_data [] of
                  Inl e \<Rightarrow> Inl e
                | Inr total_bills \<Rightarrow>
                    (case render_row ''TOTAL'' total_bills of
                       Inl e \<Rightarrow> Inl e
                     | Inr t \<Rightarrow> Inr (rows' @ [separator_row] @ [t])))))"

subsection \<open>The query window of \<open>get_last_four_months_of_bills\<close>\<close>

record date =
  year :: int
  month :: int
  day :: int

definition is_leap :: "int \<Rightarrow> bool" where
  "is_leap y \<longleftrightarrow> y mod 4 = 0 \<and> (y mod 100 \<noteq> 0 \<or> y mod 400 = 0)"

definition days_in_month :: "int \<Rightarrow> int \<Rightarrow> int" where
  "days_in_month y m =
     (if m = 2 then (if is_leap y then 29 else 28)
      else if m \<in> {4, 6, 9, 11} then 30 else 31)"

text \<open>\<open>datetime.date(year, month, day)\<close>, which \<open>date.replace\<close> calls: out of range is \<open>ValueError\<close>.\<close>

definition mk_date :: "int \<Rightarrow> int \<Rightarrow> int \<Rightarrow> error + date" where
  "mk_date y m d =
     (if 1 \<le> y \<and> y \<le> 9999 \<and> 1 \<le> m \<and> m \<le> 12 \<and> 1 \<le> d \<and> d \<le> days_in_month y m
      then Inr \<lparr>year = y, month = m, day = d\<rparr> else Inl ValueError)"

text \<open>
  The \<open>TimePeriod\<close> of the Cost Explorer query: \<open>(Start, End)\<close> computed from today's date.
\<close>

definition time_period :: "date \<Rightarrow> error + (date \<times> date)" where
  "time_period today =
     (case mk_date (year today) (month today) 1 of
        Inl e \<Rightarrow> Inl e
      | Inr this_month_start \<Rightarrow>
          (case (if month this_month_start > 4
                 then mk_date (year this_month_start) (month this_month_start - 4)
                        (day this_month_start)
                 else mk_date (year this_month_start - 1) (12 - month this_month_start)
                        (day this_month_start)) of
             Inl e \<Rightarrow> Inl e
           | Inr four_months_ago \<Rightarrow> Inr (four_months_ago, this_month_start)))"

section \<open>Specification-level notions\<close>

text \<open>
  The thousands separators as the specification words them: a block of digits is cut into
  groups of three from the right, and the groups are joined by commas.
\<close>

function comma_groups :: "string \<Rightarrow> string" where
  "comma_groups ds =
     (if length ds \<le> 3 then ds
      else comma_groups (take (length ds - 3) ds) @ '','' @ drop (length ds - 3) ds)"
  by pat_completeness auto
termination
  by (relation "measure length") auto

declare comma_groups.simps [simp del]

text \<open>
  The trend row as the specification words it. "This month" is the entry with the greatest
  month key, the "previous months" are all other entries, and the previous average is the
  arithmetic mean of the previous totals that are not zero. The specification's
  AccountBills carry non-negative amounts.
\<close>

definition latest_month :: "bills \<Rightarrow> month_key" where
  "latest_month b = Max (set (map fst b))"

definition latest_total :: "bills \<Rightarrow> rat" where
  "latest_total b = the (map_of b (latest_month b))"

definition previous_totals :: "bills \<Rightarrow> rat list" where
  "previous_totals b = map snd (filter (\<lambda>kv. fst kv \<noteq> latest_month b) b)"

definition nonzero_previous :: "bills \<Rightarrow> rat list" where
  "nonzero_previous b = filter (\<lambda>v. v \<noteq> 0) (previous_totals b)"

definition previous_mean :: "bills \<Rightarrow> rat" where
  "previous_mean b = sum_list (nonzero_previous b) / of_nat (length (nonzero_previous b))"

definition nonneg_amounts :: "bills \<Rightarrow> bool" where
  "nonneg_amounts b = list_all (\<lambda>kv. 0 \<le> snd kv) b"

text \<open>
  The month \<open>n\<close> calendar months before the month \<open>(year, month)\<close>.
\<close>

definition months_before :: "int \<Rightarrow> month_key \<Rightarrow> month_key" where
  "months_before n ym = (let i = fst ym * 12 + (snd ym - 1) - n in (i div 12, i mod 12 + 1))"

text \<open>
  The total row as the specification words it: an account contributes to a month its
  amount for the month, where an amount of exactly zero is replaced by the mean of the
  account's amounts that are not zero; an account without the month contributes nothing.
\<close>

definition backfilled :: "bills \<Rightarrow> rat \<Rightarrow> rat" where
  "backfilled b a =
     (if a = 0
      then sum_list [v \<leftarrow> map snd b. v \<noteq> 0] / of_nat (length [v \<leftarrow> map snd b. v \<noteq> 0])
      else a)"

definition contribution :: "bills \<Rightarrow> month_key \<Rightarrow> rat" where
  "contribution b m = (case map_of b m of None \<Rightarrow> 0 | Some a \<Rightarrow> backfilled b a)"

definition spec_total :: "billing_data \<Rightarrow> month_key \<Rightarrow> rat" where
  "spec_total bd m = sum_list (map (\<lambda>nb. contribution (snd nb) m) bd)"

definition observed_months :: "billing_data \<Rightarrow> month_key set" where
  "observed_months bd = \<Union> (set (map (\<lambda>nb. set (map fst (snd nb))) bd))"

definition account_bills :: "bills \<Rightarrow> bool" where
  "account_bills b \<longleftrightarrow> distinct (map fst b) \<and> nonneg_amounts b"

text \<open>The amount a dict of bills holds for a month, \<open>0\<close> when the month is missing.\<close>

definition amount_at :: "bills \<Rightarrow> month_key \<Rightarrow> rat" where
  "amount_at t m = (case map_of t m of None \<Rightarrow> 0 | Some v \<Rightarrow> v)"

text \<open>The amount a float is printed as: rounded to two decimals, with its sign.\<close>

definition two_decimals :: "rat \<Rightarrow> rat" where
  "two_decimals v = (if v < 0 then - 1 else 1) * (of_nat (round_half_even (\<bar>v\<bar> * 100)) / 100)"

section \<open>The currency formatter\<close>

subsection \<open>Evaluation on literals\<close>

lemma floor_rat_numeral [simp]:
  "\<lfloor>numeral a / numeral b :: rat\<rfloor> = numeral a div numeral b"
  using floor_divide_of_int_eq [of "numeral a" "numeral b", where ?'a = rat] by simp

lemma floor_rat_minus_numeral [simp]:
  "\<lfloor>- (numeral a / numeral b) :: rat\<rfloor> = - numeral a div numeral b"
  using floor_divide_of_int_eq [of "- numeral a" "numeral b", where ?'a = rat] by simp

lemma ceiling_rat_numeral [simp]:
  "\<lceil>numeral a / numeral b :: rat\<rceil> = - (- numeral a div numeral b)"
  unfolding ceiling_def by simp

lemma ceiling_rat_minus_numeral [simp]:
  "\<lceil>- (numeral a / numeral b) :: rat\<rceil> = - (numeral a div numeral b)"
  unfolding ceiling_def by simp

lemmas fmt_eval = fmt_2f_def round_half_even_def Let_def str_nat.simps digit_char_def
  pprint_currency_def orig_of_def pprint_str.simps re_sub_def is_digit_def

subsection \<open>One step and many steps of the substitution\<close>

lemma pprint_str_step: "re_sub s \<noteq> s \<Longrightarrow> pprint_str s = pprint_str (re_sub s)"
  by (subst pprint_str.simps) (auto simp: Let_def)

lemma pprint_str_stop: "re_sub s = s \<Longrightarrow> pprint_str s = s"
  by (subst pprint_str.simps) (simp add: Let_def)

lemma re_sub_fixed: "re_sub (pprint_str s) = pprint_str s"
proof (induction s rule: pprint_str.induct)
  case (1 orig)
  show ?case
  proof (cases "re_sub orig = orig")
    case True
    then show ?thesis by (simp add: pprint_str_stop)
  next
    case False
    with 1 show ?thesis by (simp add: pprint_str_step)
  qed
qed

lemma pprint_str_iter:
  "\<exists>n \<le> lead_digits s. re_sub ((re_sub ^^ n) s) = (re_sub ^^ n) s \<and> pprint_str s = (re_sub ^^ n) s"
proof (induction s rule: pprint_str.induct)
  case (1 orig)
  show ?case
  proof (cases "re_sub orig = orig")
    case True
    then have "re_sub ((re_sub ^^ 0) orig) = (re_sub ^^ 0) orig \<and> pprint_str orig = (re_sub ^^ 0) orig"
      by (simp add: pprint_str_stop)
    then show ?thesis by blast
  next
    case False
    then have ne: "orig \<noteq> re_sub orig" by simp
    from "1.IH" [OF refl ne] obtain n where n: "n \<le> lead_digits (re_sub orig)"
      "re_sub ((re_sub ^^ n) (re_sub orig)) = (re_sub ^^ n) (re_sub orig)"
      "pprint_str (re_sub orig) = (re_sub ^^ n) (re_sub orig)" by auto
    have lt: "lead_digits (re_sub orig) < lead_digits orig"
      using False by (rule re_sub_lead_digits)
    have "re_sub ((re_sub ^^ Suc n) orig) = (re_sub ^^ Suc n) orig"
      using n(2) by (simp add: funpow_swap1)
    moreover have "pprint_str orig = (re_sub ^^ Suc n) orig"
      using n(3) False by (simp add: pprint_str_step funpow_swap1)
    moreover have "Suc n \<le> lead_digits orig" using n(1) lt by simp
    ultimately show ?thesis by blast
  qed
qed

subsection \<open>The shape of a formatted float\<close>

lemma digit_nth: "i < 10 \<Longrightarrow> is_digit (''0123456789'' ! i)"
  by (auto simp: numeral_eq_Suc less_Suc_eq is_digit_def)

lemma is_digit_digit_char: "is_digit (digit_char k)"
  unfolding digit_char_def by (rule digit_nth) simp

lemma str_nat_digits: "\<forall>c \<in> set (str_nat n). is_digit c"
proof (induction n rule: str_nat.induct)
  case (1 n)
  show ?case
  proof (cases "n < 10")
    case True
    then show ?thesis by (subst str_nat.simps) (simp add: is_digit_digit_char)
  next
    case False
    then show ?thesis using 1 by (subst str_nat.simps) (auto simp: is_digit_digit_char)
  qed
qed

lemma str_nat_nonempty: "str_nat n \<noteq> []"
  by (subst str_nat.simps) simp

lemma re_sub_digits:
  assumes ds: "\<forall>c \<in> set ds. is_digit c" and ne: "ds \<noteq> []"
    and rest: "rest = [] \<or> \<not> is_digit (hd rest)"
    and sign: "sign = [] \<or> sign = ''-''"
  shows "re_sub (sign @ ds @ rest) =
     (if 4 \<le> length ds
      then sign @ take (length ds - 3) ds @ '','' @ drop (length ds - 3) ds @ rest
      else sign @ ds @ rest)"
proof -
  obtain d ds' where dcons: "ds = d # ds'" using ne by (cases ds) auto
  have "is_digit d" using ds dcons by simp
  then have dnm: "d \<noteq> CHR ''-''" by (auto simp: is_digit_def)
  have s: "takeWhile (\<lambda>c. c = CHR ''-'') (take 1 (sign @ ds @ rest)) = sign"
    using sign dnm dcons by auto
  have tw: "takeWhile is_digit (ds @ rest) = ds"
    using ds rest by (cases rest) (simp_all add: takeWhile_append2)
  have dw: "dropWhile is_digit (ds @ rest) = rest"
    using ds rest by (cases rest) (simp_all add: dropWhile_append2)
  show ?thesis
    unfolding re_sub_def Let_def s by (simp add: tw dw)
qed

lemma pprint_str_comma_groups:
  "\<forall>c \<in> set ds. is_digit c \<Longrightarrow> ds \<noteq> [] \<Longrightarrow> rest = [] \<or> \<not> is_digit (hd rest) \<Longrightarrow>
   sign = [] \<or> sign = ''-'' \<Longrightarrow> pprint_str (sign @ ds @ rest) = sign @ comma_groups ds @ rest"
proof (induction ds arbitrary: rest rule: comma_groups.induct)
  case (1 ds)
  note rs = re_sub_digits [OF "1.prems"]
  show ?case
  proof (cases "length ds \<le> 3")
    case True
    then have "re_sub (sign @ ds @ rest) = sign @ ds @ rest" using rs by simp
    then have "pprint_str (sign @ ds @ rest) = sign @ ds @ rest"
      by (rule pprint_str_stop)
    moreover have "comma_groups ds = ds" using True by (subst comma_groups.simps) simp
    ultimately show ?thesis by simp
  next
    case False
    let ?hd = "take (length ds - 3) ds" and ?tl = "drop (length ds - 3) ds"
    let ?rest = "'','' @ ?tl @ rest"
    have new: "re_sub (sign @ ds @ rest) = sign @ ?hd @ ?rest" using rs False by simp
    have "length (re_sub (sign @ ds @ rest)) \<noteq> length (sign @ ds @ rest)"
      unfolding new using False by simp
    then have "re_sub (sign @ ds @ rest) \<noteq> sign @ ds @ rest" by metis
    then have step: "pprint_str (sign @ ds @ rest) = pprint_str (sign @ ?hd @ ?rest)"
      using pprint_str_step new by metis
    have a: "\<forall>c \<in> set ?hd. is_digit c" using "1.prems"(1) by (meson in_set_takeD)
    have b: "?hd \<noteq> []" using False by auto
    have c: "?rest = [] \<or> \<not> is_digit (hd ?rest)" by (simp add: is_digit_def)
    have "pprint_str (sign @ ?hd @ ?rest) = sign @ comma_groups ?hd @ ?rest"
      using "1.IH" [OF False a b c "1.prems"(4)] .
    moreover have "comma_groups ds = comma_groups ?hd @ '','' @ ?tl"
      using False by (subst comma_groups.simps) simp
    ultimately show ?thesis using step by simp
  qed
qed

lemma pprint_currency_float:
  "pprint_currency (PFloat v) =
     (let n = round_half_even (\<bar>v\<bar> * 100)
      in (if v < 0 then ''-'' else []) @ comma_groups (str_nat (n div 100)) @ ''.''
           @ [digit_char (n div 10), digit_char n])"
proof -
  define n where "n = round_half_even (\<bar>v\<bar> * 100)"
  define sign where "sign = (if v < 0 then ''-'' else [])"
  define rest where "rest = ''.'' @ [digit_char (n div 10), digit_char n]"
  have "pprint_str (sign @ str_nat (n div 100) @ rest)
      = sign @ comma_groups (str_nat (n div 100)) @ rest"
    by (rule pprint_str_comma_groups [OF str_nat_digits str_nat_nonempty])
       (simp_all add: rest_def sign_def is_digit_def)
  then show ?thesis
    by (simp add: pprint_currency_def orig_of_def fmt_2f_def Let_def n_def sign_def rest_def)
qed

subsection \<open>The call and the limits of the interpreter\<close>

lemma lead_digits_re_sub:
  "lead_digits (re_sub s) = (if 4 \<le> lead_digits s then lead_digits s - 3 else lead_digits s)"
  and re_sub_changes: "re_sub s = s \<longleftrightarrow> lead_digits s < 4"
proof -
  define sign where "sign = takeWhile (\<lambda>c. c = CHR ''-'') (take 1 s)"
  define body where "body = drop (length sign) s"
  define ds where "ds = takeWhile is_digit body"
  define rest where "rest = dropWhile is_digit body"
  have ld: "lead_digits s = length ds"
    unfolding lead_digits_def ds_def body_def sign_def by simp
  have decomp: "s = sign @ ds @ rest"
  proof -
    have "sign @ body = s"
      unfolding body_def sign_def by (cases s) auto
    moreover have "ds @ rest = body" unfolding ds_def rest_def by simp
    ultimately show ?thesis by simp
  qed
  have small: "re_sub s = s" if "\<not> 4 \<le> length ds"
    using that unfolding re_sub_def Let_def sign_def body_def ds_def by simp
  have big: "re_sub s = sign @ take (length ds - 3) ds @ '','' @ drop (length ds - 3) ds @ rest"
    if "4 \<le> length ds"
    using that unfolding re_sub_def Let_def sign_def body_def ds_def rest_def by simp
  have ne: "re_sub s \<noteq> s" if "4 \<le> length ds"
  proof -
    have "length s = length sign + length ds + length rest"
      by (subst decomp) simp
    moreover have "length (re_sub s) = length sign + (length ds + 1) + length rest"
      unfolding big [OF that] using that by simp
    ultimately have "length (re_sub s) \<noteq> length s" by simp
    then show ?thesis by metis
  qed
  show "re_sub s = s \<longleftrightarrow> lead_digits s < 4"
    unfolding ld using small ne by (cases "4 \<le> length ds") auto
  show "lead_digits (re_sub s) = (if 4 \<le> lead_digits s then lead_digits s - 3 else lead_digits s)"
  proof (cases "4 \<le> length ds")
    case False
    then show ?thesis unfolding ld using small by (simp add: ld)
  next
    case True
    have "lead_digits (re_sub s) = length ds - 3"
    proof -
      have dsd: "\<forall>c \<in> set ds. is_digit c"
        unfolding ds_def by (auto dest: set_takeWhileD)
      obtain d ds' where dcons: "take (length ds - 3) ds = d # ds'"
        using True by (cases "take (length ds - 3) ds") auto
      have dd: "is_digit d" using dsd dcons by (metis in_set_takeD list.set_intros(1))
      have dnm: "d \<noteq> CHR ''-''" using dd by (auto simp: is_digit_def)
      have sign_cases: "sign = [] \<or> sign = ''-''"
        unfolding sign_def by (cases s) auto
      have sign_new: "takeWhile (\<lambda>c. c = CHR ''-'') (take 1 (re_sub s)) = sign"
        using sign_cases dnm unfolding big [OF True] dcons by auto
      have "drop (length sign) (re_sub s)
          = take (length ds - 3) ds @ '','' @ drop (length ds - 3) ds @ rest"
        unfolding big [OF True] by simp
      moreover have "takeWhile is_digit (take (length ds - 3) ds @ '','' @ drop (length ds - 3) ds @ rest)
          = take (length ds - 3) ds"
      proof -
        have "\<forall>c \<in> set (take (length ds - 3) ds). is_digit c"
          using dsd by (meson in_set_takeD)
        moreover have "\<not> is_digit CHR '',''" by (simp add: is_digit_def)
        ultimately show ?thesis by (simp add: takeWhile_append2)
      qed
      ultimately show ?thesis
        unfolding lead_digits_def sign_new using True by simp
    qed
    then show ?thesis using True ld by simp
  qed
qed

lemma pprint_currency_call_spec:
  "pprint_currency_call frames (Val v) =
     (if (lead_digits (orig_of v) - 1) div 3 < frames then Inr (pprint_currency v)
      else Inl RecursionError)"
proof (induction frames arbitrary: v)
  case 0
  then show ?case by simp
next
  case (Suc frames)
  let ?s = "orig_of v"
  show ?case
  proof (cases "re_sub ?s = ?s")
    case True
    then have "lead_digits ?s < 4" by (simp add: re_sub_changes)
    then have "(lead_digits ?s - 1) div 3 < Suc frames" by simp
    moreover have "pprint_currency_call (Suc frames) (Val v) = Inr ?s"
      using True by (simp add: Let_def)
    moreover have "pprint_currency v = ?s"
      using True by (simp add: pprint_currency_def pprint_str_stop)
    ultimately show ?thesis by simp
  next
    case False
    then have big: "4 \<le> lead_digits ?s" by (simp add: re_sub_changes)
    have l: "lead_digits (re_sub ?s) = lead_digits ?s - 3"
      using big by (simp add: lead_digits_re_sub)
    have step: "pprint_currency_call (Suc frames) (Val v)
        = pprint_currency_call frames (Val (PStr (re_sub ?s)))"
      using False by (auto simp: Let_def)
    have o: "orig_of (PStr (re_sub ?s)) = re_sub ?s" by (simp add: orig_of_def)
    have v: "pprint_currency (PStr (re_sub ?s)) = pprint_currency v"
      using False by (simp add: pprint_currency_def o pprint_str_step)
    obtain n where n: "lead_digits ?s = n + 4"
      using big by (metis add.commute le_Suc_ex)
    have "(lead_digits (re_sub ?s) - 1) div 3 < frames \<longleftrightarrow> (lead_digits ?s - 1) div 3 < Suc frames"
      unfolding l n by simp
    then show ?thesis
      unfolding step Suc.IH o v by simp
  qed
qed


lemma pprint_currency_call_float:
  "pprint_currency_call frames (Val (PFloat x)) =
     (if (lead_digits (fmt_2f x) - 1) div 3 < frames then Inr (pprint_currency (PFloat x))
      else Inl RecursionError)"
  using pprint_currency_call_spec [of frames "PFloat x"] by (simp add: orig_of_def)

lemma pprint_currency_call_int: "0 < frames \<Longrightarrow> pprint_currency_call frames (IntVal i) = Inl TypeError"
  by (cases frames) simp_all

lemma lead_digits_replicate: "lead_digits (replicate n CHR ''1'') = n"
proof -
  have d: "is_digit CHR ''1''" by (simp add: is_digit_def)
  have "takeWhile (\<lambda>c. c = CHR ''-'') (take 1 (replicate n CHR ''1'')) = []"
    by (cases n) simp_all
  moreover have "takeWhile is_digit (replicate n CHR ''1'') = replicate n CHR ''1''"
    using d by (simp add: takeWhile_eq_all_conv)
  ultimately show ?thesis by (simp add: lead_digits_def)
qed

lemma lead_digits_digits:
  assumes ds: "\<forall>c \<in> set ds. is_digit c" and ne: "ds \<noteq> []"
    and rest: "rest = [] \<or> \<not> is_digit (hd rest)"
    and sign: "sign = [] \<or> sign = ''-''"
  shows "lead_digits (sign @ ds @ rest) = length ds"
proof -
  obtain d ds' where dcons: "ds = d # ds'" using ne by (cases ds) auto
  have "is_digit d" using ds dcons by simp
  then have dnm: "d \<noteq> CHR ''-''" by (auto simp: is_digit_def)
  have s: "takeWhile (\<lambda>c. c = CHR ''-'') (take 1 (sign @ ds @ rest)) = sign"
    using sign dnm dcons by auto
  have tw: "takeWhile is_digit (ds @ rest) = ds"
    using ds rest by (cases rest) (simp_all add: takeWhile_append2)
  show ?thesis unfolding lead_digits_def s by (simp add: tw)
qed

lemma length_str_nat: "0 < k \<Longrightarrow> m < 10 ^ k \<Longrightarrow> length (str_nat m) \<le> k"
proof (induction m arbitrary: k rule: str_nat.induct)
  case (1 n)
  show ?case
  proof (cases "n < 10")
    case True
    then show ?thesis using "1.prems"(1) by (subst str_nat.simps) simp
  next
    case False
    obtain j where k: "k = Suc j" using "1.prems"(1) by (cases k) auto
    have "0 < j"
    proof (rule ccontr)
      assume "\<not> 0 < j"
      then have "k = 1" using k by simp
      then show False using "1.prems"(2) False by simp
    qed
    moreover have "n div 10 < 10 ^ j" using "1.prems"(2) k by (simp add: less_mult_imp_div_less mult.commute)
    ultimately have "length (str_nat (n div 10)) \<le> j" using "1.IH" [OF False] by blast
    then show ?thesis using False k by (subst str_nat.simps) simp
  qed
qed

lemma round_half_even_le: "0 \<le> y \<Longrightarrow> y \<le> of_nat M \<Longrightarrow> round_half_even y \<le> M"
proof -
  assume y0: "0 \<le> y" and yM: "y \<le> of_nat M"
  have f: "\<lfloor>y\<rfloor> \<le> int M" using yM by (simp add: floor_le_iff)
  have f0: "0 \<le> \<lfloor>y\<rfloor>" using y0 by simp
  show ?thesis
  proof (cases "y = of_int \<lfloor>y\<rfloor>")
    case True
    then have "y - of_int \<lfloor>y\<rfloor> = 0" by simp
    then have "round_half_even y = nat \<lfloor>y\<rfloor>" by (simp add: round_half_even_def Let_def)
    then show ?thesis using f by simp
  next
    case False
    then have "of_int \<lfloor>y\<rfloor> < y" using of_int_floor_le [of y] by linarith
    then have "of_int \<lfloor>y\<rfloor> < (of_int (int M) :: rat)" using yM by simp
    then have "\<lfloor>y\<rfloor> < int M" by (simp only: of_int_less_iff)
    then have "\<lfloor>y\<rfloor> + 1 \<le> int M" by simp
    moreover have "round_half_even y \<le> nat (\<lfloor>y\<rfloor> + 1)"
      using f0 by (auto simp: round_half_even_def Let_def)
    ultimately show ?thesis using f0 by linarith
  qed
qed

lemma double_digits: "(2::nat) ^ 1024 < 10 ^ 309"
  by simp

lemma float_lead_digits:
  assumes "\<bar>x\<bar> < 2 ^ 1024"
  shows "lead_digits (fmt_2f x) \<le> 309"
proof -
  define n where "n = round_half_even (\<bar>x\<bar> * 100)"
  have "\<bar>x\<bar> * 100 \<le> of_nat (2 ^ 1024 * 100)" using assms by simp
  then have "n \<le> 2 ^ 1024 * 100"
    unfolding n_def by (intro round_half_even_le) simp_all
  then have "n div 100 \<le> 2 ^ 1024" by simp
  then have "n div 100 < 10 ^ 309" using double_digits by linarith
  then have "length (str_nat (n div 100)) \<le> 309" by (intro length_str_nat) simp_all
  moreover have "lead_digits (fmt_2f x) = length (str_nat (n div 100))"
    unfolding fmt_2f_def Let_def n_def [symmetric]
    by (rule lead_digits_digits [OF str_nat_digits str_nat_nonempty]) (simp_all add: is_digit_def)
  ultimately show ?thesis by simp
qed

subsection \<open>Claims about the formatter\<close>

text \<open>
  Claim C6, as stated, fails for the number zero as the int \<open>0\<close>: the argument is not a float,
  so it is passed to \<open>re.sub\<close> unchanged and the call raises \<open>TypeError\<close>.
\<close>

theorem int_zero_is_type_error:
  "pprint_currency_call 1000 (IntVal 0) = Inl TypeError"
  by (rule pprint_currency_call_int) simp

text \<open>
  Claim C6, amended. A float is rendered as an optional minus sign, the integer part of the
  amount rounded to two decimals with a comma before every group of three digits, a point,
  and exactly two fractional digits; the call returns this string when the stack allows
  its nested calls. In particular \<open>1234567.5\<close> gives \<open>1,234,567.50\<close>, \<open>-42.1\<close> gives
  \<open>-42.10\<close> and the float zero \<open>0.0\<close> gives \<open>0.00\<close>. An int is not accepted: the call raises
  \<open>TypeError\<close>.
\<close>

theorem pprint_currency_formats_floats:
  "pprint_currency (PFloat v) =
     (if v < 0 then ''-'' else [])
       @ comma_groups (str_nat (round_half_even (\<bar>v\<bar> * 100) div 100))
       @ ''.''
       @ [digit_char (round_half_even (\<bar>v\<bar> * 100) div 10),
          digit_char (round_half_even (\<bar>v\<bar> * 100))]
   \<and> ((lead_digits (fmt_2f v) - 1) div 3 < frames \<longrightarrow>
        pprint_currency_call frames (Val (PFloat v)) = Inr (pprint_currency (PFloat v)))
   \<and> (3 \<le> frames \<longrightarrow>
        pprint_currency_call frames (Val (PFloat (12345675 / 10))) = Inr ''1,234,567.50'')
   \<and> (1 \<le> frames \<longrightarrow>
        pprint_currency_call frames (Val (PFloat (- 421 / 10))) = Inr ''-42.10'')
   \<and> (1 \<le> frames \<longrightarrow> pprint_currency_call frames (Val (PFloat 0)) = Inr ''0.00'')
   \<and> (1 \<le> frames \<longrightarrow> pprint_currency_call frames (IntVal i) = Inl TypeError)"
proof -
  have general: "pprint_currency (PFloat v) =
     (if v < 0 then ''-'' else [])
       @ comma_groups (str_nat (round_half_even (\<bar>v\<bar> * 100) div 100))
       @ ''.''
       @ [digit_char (round_half_even (\<bar>v\<bar> * 100) div 10),
          digit_char (round_half_even (\<bar>v\<bar> * 100))]"
    using pprint_currency_float [of v] by (simp add: Let_def)
  have call: "pprint_currency_call frames (Val (PFloat v)) = Inr (pprint_currency (PFloat v))"
    if "(lead_digits (fmt_2f v) - 1) div 3 < frames"
    using that by (simp add: pprint_currency_call_float)
  have e1: "pprint_currency_call frames (Val (PFloat (12345675 / 10))) = Inr ''1,234,567.50''"
    if "3 \<le> frames"
    using that by (simp add: pprint_currency_call_float fmt_eval lead_digits_def)
  have e2: "pprint_currency_call frames (Val (PFloat (- 421 / 10))) = Inr ''-42.10''"
    if "1 \<le> frames"
    using that by (simp add: pprint_currency_call_float fmt_eval lead_digits_def)
  have e3: "pprint_currency_call frames (Val (PFloat 0)) = Inr ''0.00''"
    if "1 \<le> frames"
    using that by (simp add: pprint_currency_call_float fmt_eval lead_digits_def)
  have e4: "pprint_currency_call frames (IntVal i) = Inl TypeError" if "1 \<le> frames"
    using that by (intro pprint_currency_call_int) simp
  from general call e1 e2 e3 e4 show ?thesis by blast
qed

theorem pprint_currency_formats_floats_witness:
  "(lead_digits (fmt_2f (12345 / 10)) - 1) div 3 < 2
   \<and> pprint_currency_call 2 (Val (PFloat (12345 / 10))) = Inr ''1,234.50''
   \<and> pprint_currency_call 1000 (Val (PFloat 0)) = Inr ''0.00''
   \<and> pprint_currency_call 1000 (IntVal 7) = Inl TypeError"
proof -
  note inst = pprint_currency_formats_floats [of "12345 / 10" 2]
  have l: "lead_digits (fmt_2f (12345 / 10)) = 4"
    by (simp add: fmt_eval lead_digits_def)
  have h: "(lead_digits (fmt_2f (12345 / 10)) - 1) div 3 < 2" unfolding l by simp
  have v: "pprint_currency (PFloat (12345 / 10)) = ''1,234.50''"
    using inst by (simp add: round_half_even_def Let_def str_nat.simps digit_char_def comma_groups.simps)
  have a: "pprint_currency_call 2 (Val (PFloat (12345 / 10))) = Inr ''1,234.50''"
    using inst h unfolding v by blast
  have b: "pprint_currency_call 1000 (Val (PFloat 0)) = Inr ''0.00''"
    using pprint_currency_formats_floats [of 0 1000] by simp
  have c: "pprint_currency_call 1000 (IntVal 7) = Inl TypeError"
    using pprint_currency_formats_floats [of 0 1000 7] by simp
  from h a b c show ?thesis by blast
qed

text \<open>
  Claim C7. Formatting is idempotent: formatting the result of the formatter again, as a
  string, returns it unchanged, whatever the first argument was.
\<close>

theorem pprint_currency_idempotent:
  "pprint_currency (PStr (pprint_currency v)) = pprint_currency v"
proof -
  have "pprint_str (pprint_str s) = pprint_str s" for s
    by (rule pprint_str_stop) (rule re_sub_fixed)
  then show ?thesis by (simp add: pprint_currency_def orig_of_def)
qed

theorem pprint_currency_idempotent_witness:
  "pprint_currency (PStr ''1,234,567.50'') = ''1,234,567.50''"
proof -
  have "pprint_currency (PFloat (12345675 / 10)) = ''1,234,567.50''"
    by (simp add: fmt_eval)
  with pprint_currency_idempotent [of "PFloat (12345675 / 10)"] show ?thesis by simp
qed

text \<open>
  Claim C10, as stated, fails for a string of 3001 digits: it needs 1001 nested calls, one
  per inserted comma and one more, and with the 1000 frames of the default recursion limit
  the call raises \<open>RecursionError\<close> instead of returning.
\<close>

theorem recursion_limit_exceeded:
  "pprint_currency_call 1000 (Val (PStr (replicate 3001 CHR ''1''))) = Inl RecursionError"
  by (simp add: pprint_currency_call_spec orig_of_def lead_digits_replicate)

text \<open>
  Claim C10, amended. On every float and every string the substitution reaches a fixed
  point after finitely many applications (at most as many as the first string has leading
  digits). The call returns that fixed point exactly when the interpreter allows more than
  \<open>(d - 1) div 3\<close> nested calls, \<open>d\<close> being the number of leading digits of the first string,
  and raises \<open>RecursionError\<close> otherwise. A float below \<open>2 ^ 1024\<close> in magnitude, as every
  finite double is, has at most 309 leading digits and returns within 103 nested calls.
\<close>

theorem pprint_currency_returns_within_limit:
  "(\<exists>n \<le> lead_digits (orig_of v).
      re_sub ((re_sub ^^ n) (orig_of v)) = (re_sub ^^ n) (orig_of v)
      \<and> pprint_currency v = (re_sub ^^ n) (orig_of v))
   \<and> pprint_currency_call frames (Val v) =
       (if (lead_digits (orig_of v) - 1) div 3 < frames then Inr (pprint_currency v)
        else Inl RecursionError)
   \<and> (\<bar>x\<bar> < 2 ^ 1024 \<longrightarrow>
        pprint_currency_call 103 (Val (PFloat x)) = Inr (pprint_currency (PFloat x)))"
proof (intro conjI impI)
  show "\<exists>n \<le> lead_digits (orig_of v).
      re_sub ((re_sub ^^ n) (orig_of v)) = (re_sub ^^ n) (orig_of v)
      \<and> pprint_currency v = (re_sub ^^ n) (orig_of v)"
    unfolding pprint_currency_def by (rule pprint_str_iter)
  show "pprint_currency_call frames (Val v) =
       (if (lead_digits (orig_of v) - 1) div 3 < frames then Inr (pprint_currency v)
        else Inl RecursionError)"
    by (rule pprint_currency_call_spec)
next
  assume "\<bar>x\<bar> < 2 ^ 1024"
  then have "lead_digits (fmt_2f x) \<le> 309" by (rule float_lead_digits)
  then have "(lead_digits (fmt_2f x) - 1) div 3 < 103" by simp
  then show "pprint_currency_call 103 (Val (PFloat x)) = Inr (pprint_currency (PFloat x))"
    by (simp add: pprint_currency_call_float)
qed

theorem pprint_currency_returns_within_limit_witness:
  "\<bar>12345675 / 10 :: rat\<bar> < 2 ^ 1024
   \<and> pprint_currency_call 103 (Val (PFloat (12345675 / 10))) = Inr ''1,234,567.50''
   \<and> pprint_currency_call 3 (Val (PStr ''-1234567,x'')) = Inr ''-1,234,567,x''
   \<and> pprint_currency_call 2 (Val (PStr ''-1234567,x'')) = Inl RecursionError"
proof -
  have h: "\<bar>12345675 / 10 :: rat\<bar> < 2 ^ 1024" by simp
  have v: "pprint_currency (PFloat (12345675 / 10)) = ''1,234,567.50''"
    by (simp add: fmt_eval)
  have a: "pprint_currency_call 103 (Val (PFloat (12345675 / 10))) = Inr ''1,234,567.50''"
    using pprint_currency_returns_within_limit [of _ _ "12345675 / 10"] h unfolding v by blast
  have o: "orig_of (PStr ''-1234567,x'') = ''-1234567,x''" by (simp add: orig_of_def)
  have l: "lead_digits ''-1234567,x'' = 7" by (simp add: lead_digits_def is_digit_def)
  have w: "pprint_currency (PStr ''-1234567,x'') = ''-1,234,567,x''"
    by (simp add: fmt_eval)
  have b: "pprint_currency_call 3 (Val (PStr ''-1234567,x'')) = Inr ''-1,234,567,x''"
    using pprint_currency_returns_within_limit [of "PStr ''-1234567,x''" 3] unfolding o l w by simp
  have c: "pprint_currency_call 2 (Val (PStr ''-1234567,x'')) = Inl RecursionError"
    using pprint_currency_returns_within_limit [of "PStr ''-1234567,x''" 2] unfolding o l w by simp
  from h a b c show ?thesis by blast
qed

section \<open>The trend row renderer\<close>

subsection \<open>The sorted items and the specification's months\<close>

lemma sorted_le_last: "sorted xs \<Longrightarrow> y \<in> set xs \<Longrightarrow> y \<le> last xs"
  by (induction xs) auto

lemma last_sort_Max:
  fixes xs :: "('a :: linorder) list"
  assumes "xs \<noteq> []"
  shows "last (sort xs) = Max (set xs)"
proof -
  have ne: "sort xs \<noteq> []" using assms by (metis length_sort length_0_conv)
  have "last (sort xs) \<in> set xs" using last_in_set [OF ne] by simp
  moreover have "y \<le> last (sort xs)" if "y \<in> set xs" for y
    using sorted_le_last [of "sort xs" y] that by simp
  ultimately have "Max (set xs) = last (sort xs)"
    by (intro Max_eqI) auto
  then show ?thesis by simp
qed

lemma mset_butlast_sort:
  fixes xs :: "('a :: linorder) list"
  assumes "xs \<noteq> []"
  shows "mset (butlast (sort xs)) + {#Max (set xs)#} = mset xs"
proof -
  have ne: "sort xs \<noteq> []" using assms by (metis length_sort length_0_conv)
  have "mset (butlast (sort xs) @ [last (sort xs)]) = mset (sort xs)"
    using ne by simp
  then show ?thesis using last_sort_Max [OF assms] by simp
qed

lemma Max_item:
  fixes b :: bills
  assumes dist: "distinct (map fst b)" and ne: "b \<noteq> []"
  shows "Max (set b) = (latest_month b, latest_total b)"
proof -
  obtain k v where kv: "Max (set b) = (k, v)" by (cases "Max (set b)")
  have inb: "(k, v) \<in> set b" using Max_in [of "set b"] ne kv by simp
  have "k' \<le> k" if "k' \<in> set (map fst b)" for k'
  proof -
    from that obtain v' where "(k', v') \<in> set b" by auto
    then have "(k', v') \<le> (k, v)" using Max_ge [of "set b" "(k', v')"] kv by simp
    then show ?thesis by (auto simp: less_le)
  qed
  moreover have "k \<in> set (map fst b)" using inb by force
  ultimately have k: "latest_month b = k"
    unfolding latest_month_def by (intro Max_eqI) auto
  have "map_of b k = Some v" using dist inb by simp
  then show ?thesis using kv k by (simp add: latest_total_def)
qed

lemma filter_other_keys:
  assumes "distinct (map fst b)" "(k, v) \<in> set b"
  shows "mset (filter (\<lambda>kv. fst kv \<noteq> k) b) + {#(k, v)#} = mset b"
  using assms
proof (induction b)
  case Nil
  then show ?case by simp
next
  case (Cons x b)
  show ?case
  proof (cases "x = (k, v)")
    case True
    then have "k \<notin> fst ` set b" using Cons.prems(1) by auto
    then have "filter (\<lambda>kv. fst kv \<noteq> k) b = b" by (auto simp: filter_id_conv)
    then show ?thesis using True by simp
  next
    case False
    then have inb: "(k, v) \<in> set b" using Cons.prems(2) by simp
    then have "fst x \<noteq> k" using Cons.prems(1) by (cases x) force
    then show ?thesis using Cons.IH inb Cons.prems(1) by simp
  qed
qed

lemma prev_months_mset:
  fixes b :: bills
  assumes dist: "distinct (map fst b)" and ne: "b \<noteq> []"
  shows "mset (butlast (sort b)) = mset (filter (\<lambda>kv. fst kv \<noteq> latest_month b) b)"
proof -
  have m: "Max (set b) = (latest_month b, latest_total b)" by (rule Max_item [OF dist ne])
  have "(latest_month b, latest_total b) \<in> set b"
    using Max_in [of "set b"] ne m by simp
  from filter_other_keys [OF dist this] mset_butlast_sort [OF ne] m
  have "mset (filter (\<lambda>kv. fst kv \<noteq> latest_month b) b) + {#(latest_month b, latest_total b)#}
      = mset (butlast (sort b)) + {#(latest_month b, latest_total b)#}"
    by simp
  then show ?thesis by (simp del: mset_filter)
qed

lemma this_month_total_spec:
  assumes "distinct (map fst b)" "b \<noteq> []"
  shows "this_month_total b = latest_total b"
  using last_sort_Max [of b] Max_item [OF assms] assms(2) by (simp add: this_month_total_def)

lemma prev_month_average_spec:
  assumes dist: "distinct (map fst b)" and ne: "b \<noteq> []"
  shows "prev_month_average b =
     (if nonzero_previous b = [] then Inl ZeroDivisionError else Inr (previous_mean b))"
proof -
  let ?L = "[total \<leftarrow> map snd (butlast (sort b)). total \<noteq> 0]"
  have "mset ?L = mset (nonzero_previous b)"
    unfolding nonzero_previous_def previous_totals_def mset_filter mset_map
    using prev_months_mset [OF dist ne] by simp
  then have len: "length ?L = length (nonzero_previous b)"
    and sum: "sum_list ?L = sum_list (nonzero_previous b)"
    by (auto dest: mset_eq_length simp: sum_mset_sum_list [symmetric] simp del: mset_filter mset_map)
  have sne: "sort b \<noteq> []" using ne by (metis length_sort length_0_conv)
  have pa: "prev_month_average b = average ?L"
    unfolding prev_month_average_def Let_def using sne by simp
  show ?thesis
    unfolding pa average_def previous_mean_def len sum by simp
qed

subsection \<open>Positive averages\<close>

lemma sum_list_positive:
  fixes xs :: "rat list"
  shows "xs \<noteq> [] \<Longrightarrow> \<forall>x \<in> set xs. 0 < x \<Longrightarrow> 0 < sum_list xs"
proof (induction xs)
  case Nil
  then show ?case by simp
next
  case (Cons x xs)
  show ?case
  proof (cases "xs = []")
    case True
    then show ?thesis using Cons.prems by simp
  next
    case False
    then have "0 < sum_list xs" using Cons by simp
    moreover have "0 < x" using Cons.prems by simp
    ultimately show ?thesis by simp
  qed
qed

lemma nonzero_previous_pos:
  assumes "nonneg_amounts b" "v \<in> set (nonzero_previous b)"
  shows "0 < v"
proof -
  have "v \<noteq> 0" and "v \<in> snd ` set b"
    using assms(2) by (auto simp: nonzero_previous_def previous_totals_def)
  moreover have "\<forall>kv \<in> set b. 0 \<le> snd kv"
    using assms(1) by (simp add: nonneg_amounts_def list_all_iff)
  ultimately show ?thesis by force
qed

lemma previous_mean_pos:
  assumes "nonneg_amounts b" "nonzero_previous b \<noteq> []"
  shows "0 < previous_mean b"
proof -
  have "0 < sum_list (nonzero_previous b)"
    using assms nonzero_previous_pos [OF assms(1)] by (intro sum_list_positive) auto
  moreover have "0 < length (nonzero_previous b)" using assms(2) by simp
  ultimately show ?thesis by (simp add: previous_mean_def)
qed

subsection \<open>The row in terms of the specification\<close>

lemma render_row_trend:
  assumes dist: "distinct (map fst b)" and ne: "b \<noteq> []"
    and nz: "nonzero_previous b \<noteq> []" and pos: "0 < previous_mean b"
  shows "render_row label b =
     Inr (if previous_mean b * (95 / 100) > latest_total b then
            [label, pprint_currency (PFloat (previous_mean b)),
             pprint_currency (PFloat (latest_total b)),
             down_arrow @ '' '' @ fmt_2d \<lfloor>(1 - latest_total b / previous_mean b) * 100\<rfloor> @ ''%'',
             []]
          else if previous_mean b * (105 / 100) \<le> latest_total b then
            [label, pprint_currency (PFloat (previous_mean b)),
             pprint_currency (PFloat (latest_total b)),
             [],
             up_arrow @ up_arrow @ '' '' @ fmt_2d \<lfloor>(latest_total b / previous_mean b - 1) * 100\<rfloor> @ ''%'']
          else
            [label, pprint_currency (PFloat (previous_mean b)),
             pprint_currency (PFloat (latest_total b)), [], []])"
proof -
  define a where "a = previous_mean b"
  define t where "t = latest_total b"
  have avg: "prev_month_average b = Inr a"
    using prev_month_average_spec [OF dist ne] nz by (simp add: a_def)
  have tot: "this_month_total b = t"
    using this_month_total_spec [OF dist ne] by (simp add: t_def)
  have a0: "0 < a" using pos by (simp add: a_def)
  have dv: "py_div t a = Inr (t / a)" using a0 by (simp add: py_div_def)
  have dec: "py_int ((1 - t / a) * 100) = \<lfloor>(1 - t / a) * 100\<rfloor>" if "a * (95 / 100) > t"
  proof -
    have "t / a < 95 / 100" using that a0 by (simp add: pos_divide_less_eq mult.commute)
    then have "0 \<le> 1 - t / a" by linarith
    then have "0 \<le> (1 - t / a) * 100" by (intro mult_nonneg_nonneg) simp_all
    then show ?thesis by (simp add: py_int_def)
  qed
  have inc: "py_int ((t / a - 1) * 100) = \<lfloor>(t / a - 1) * 100\<rfloor>" if "a * (105 / 100) \<le> t"
  proof -
    have "105 / 100 \<le> t / a" using that a0 by (simp add: pos_le_divide_eq mult.commute)
    then have "0 \<le> t / a - 1" by linarith
    then have "0 \<le> (t / a - 1) * 100" by (intro mult_nonneg_nonneg) simp_all
    then show ?thesis by (simp add: py_int_def)
  qed
  show ?thesis
    unfolding render_row_def avg tot a_def [symmetric] t_def [symmetric]
    using dec inc by (simp add: dv Let_def)
qed


subsection \<open>Claims about the row renderer\<close>

lemmas row_eval = render_row_def prev_month_average_def this_month_total_def average_def
  py_div_def py_int_def fmt_2d_def str_int_def

definition kano_pc :: bills where
  "kano_pc = [((2023, 11), 20), ((2023, 12), 41 / 2), ((2024, 1), 81 / 4), ((2024, 2), 693 / 100)]"

definition zero_first_month :: bills where
  "zero_first_month = [((2024, 1), 0), ((2024, 2), 100), ((2024, 3), 100), ((2024, 4), 50)]"

lemma prev_month_average_mean:
  assumes "distinct (map fst b)" and "b \<noteq> []" and "[v \<leftarrow> previous_totals b. v \<noteq> 0] \<noteq> []"
  shows "prev_month_average b =
     Inr (sum_list [v \<leftarrow> previous_totals b. v \<noteq> 0]
            / of_nat (length [v \<leftarrow> previous_totals b. v \<noteq> 0]))"
  using prev_month_average_spec [OF assms(1,2)] assms(3)
  by (simp add: previous_mean_def nonzero_previous_def)

text \<open>
  Claim C3. The previous-month average of the row renderer is the arithmetic mean of the
  previous totals that are not zero. For the bills \<open>{(2024,1): 0, (2024,2): 100,
  (2024,3): 100, (2024,4): 50}\<close> the average is 100 and the row is a decrease of 50 percent.
\<close>

theorem prev_month_average_excludes_zero:
  "(distinct (map fst b) \<and> b \<noteq> [] \<and> [v \<leftarrow> previous_totals b. v \<noteq> 0] \<noteq> [] \<longrightarrow>
      prev_month_average b =
        Inr (sum_list [v \<leftarrow> previous_totals b. v \<noteq> 0]
               / of_nat (length [v \<leftarrow> previous_totals b. v \<noteq> 0])))
   \<and> prev_month_average zero_first_month = Inr 100
   \<and> render_row ''account'' zero_first_month
       = Inr [''account'', ''100.00'', ''50.00'', down_arrow @ '' 50%'', []]"
proof (intro conjI impI)
  assume "distinct (map fst b) \<and> b \<noteq> [] \<and> [v \<leftarrow> previous_totals b. v \<noteq> 0] \<noteq> []"
  then show "prev_month_average b =
        Inr (sum_list [v \<leftarrow> previous_totals b. v \<noteq> 0]
               / of_nat (length [v \<leftarrow> previous_totals b. v \<noteq> 0]))"
    by (intro prev_month_average_mean) simp_all
next
  show "prev_month_average zero_first_month = Inr 100"
    by (simp add: zero_first_month_def prev_month_average_def average_def)
next
  show "render_row ''account'' zero_first_month
       = Inr [''account'', ''100.00'', ''50.00'', down_arrow @ '' 50%'', []]"
    by (simp add: zero_first_month_def row_eval fmt_eval)
qed

theorem prev_month_average_excludes_zero_witness:
  "distinct (map fst zero_first_month) \<and> zero_first_month \<noteq> []
   \<and> [v \<leftarrow> previous_totals zero_first_month. v \<noteq> 0] = [100, 100]
   \<and> prev_month_average zero_first_month = Inr (sum_list [100, 100] / of_nat (length [100, 100 :: rat]))"
proof -
  have lm: "latest_month zero_first_month = (2024, 4)"
    by (simp add: zero_first_month_def latest_month_def)
  have h1: "distinct (map fst zero_first_month)" by (simp add: zero_first_month_def)
  have h2: "zero_first_month \<noteq> []" by (simp add: zero_first_month_def)
  have nz: "[v \<leftarrow> previous_totals zero_first_month. v \<noteq> 0] = [100, 100]"
    unfolding previous_totals_def lm by (simp add: zero_first_month_def)
  have h3: "[v \<leftarrow> previous_totals zero_first_month. v \<noteq> 0] \<noteq> []" unfolding nz by simp
  from prev_month_average_excludes_zero [of zero_first_month] h1 h2 h3
  have "prev_month_average zero_first_month =
        Inr (sum_list [v \<leftarrow> previous_totals zero_first_month. v \<noteq> 0]
               / of_nat (length [v \<leftarrow> previous_totals zero_first_month. v \<noteq> 0]))"
    by blast
  then have "prev_month_average zero_first_month
      = Inr (sum_list [100, 100] / of_nat (length [100, 100 :: rat]))"
    unfolding nz .
  with h1 h2 nz show ?thesis by blast
qed

definition all_previous_zero :: bills where
  "all_previous_zero = [((2024, 1), 0), ((2024, 2), 0), ((2024, 3), 0), ((2024, 4), 50)]"

text \<open>
  Claim C5. For bills with distinct month keys and non-negative amounts, rendering the row
  raises \<open>ZeroDivisionError\<close> exactly when there is a this-month entry and no previous total
  other than zero: when the dict has exactly one entry, or has at least two and all
  previous totals are zero. When some previous total is not zero the row is returned.
\<close>

theorem render_row_zero_division:
  assumes dist: "distinct (map fst b)" and nonneg: "nonneg_amounts b"
  shows "(render_row label b = Inl ZeroDivisionError
            \<longleftrightarrow> b \<noteq> [] \<and> [v \<leftarrow> previous_totals b. v \<noteq> 0] = [])
       \<and> (b \<noteq> [] \<and> [v \<leftarrow> previous_totals b. v \<noteq> 0] = []
            \<longleftrightarrow> length b = 1 \<or> 2 \<le> length b \<and> list_all (\<lambda>v. v = 0) (previous_totals b))
       \<and> ([v \<leftarrow> previous_totals b. v \<noteq> 0] \<noteq> [] \<longrightarrow> (\<exists>row. render_row label b = Inr row))"
proof (intro conjI)
  show "render_row label b = Inl ZeroDivisionError
          \<longleftrightarrow> b \<noteq> [] \<and> [v \<leftarrow> previous_totals b. v \<noteq> 0] = []"
  proof (cases "b = []")
    case True
    then show ?thesis by (simp add: render_row_def prev_month_average_def)
  next
    case ne: False
    show ?thesis
    proof (cases "nonzero_previous b = []")
      case True
      then have "prev_month_average b = Inl ZeroDivisionError"
        using prev_month_average_spec [OF dist ne] by simp
      then show ?thesis using ne True by (simp add: render_row_def nonzero_previous_def)
    next
      case False
      then have "0 < previous_mean b" using nonneg by (intro previous_mean_pos)
      from render_row_trend [OF dist ne False this, of label]
      have "\<exists>row. render_row label b = Inr row" by blast
      then show ?thesis using False by (auto simp: nonzero_previous_def)
    qed
  qed
next
  have one: "previous_totals b = []" if "length b = 1"
  proof -
    from that obtain kv where b: "b = [kv]" by (cases b) auto
    show ?thesis unfolding previous_totals_def latest_month_def b by simp
  qed
  have "length b = 1 \<or> 2 \<le> length b" if "b \<noteq> []"
  proof -
    have "0 < length b" using that by simp
    then show ?thesis by linarith
  qed
  then show "b \<noteq> [] \<and> [v \<leftarrow> previous_totals b. v \<noteq> 0] = []
          \<longleftrightarrow> length b = 1 \<or> 2 \<le> length b \<and> list_all (\<lambda>v. v = 0) (previous_totals b)"
    using one by (auto simp: filter_empty_conv list_all_iff)
next
  show "[v \<leftarrow> previous_totals b. v \<noteq> 0] \<noteq> [] \<longrightarrow> (\<exists>row. render_row label b = Inr row)"
  proof
    assume nz: "[v \<leftarrow> previous_totals b. v \<noteq> 0] \<noteq> []"
    then have nz': "nonzero_previous b \<noteq> []" by (simp add: nonzero_previous_def)
    then have ne: "b \<noteq> []" by (auto simp: nonzero_previous_def previous_totals_def)
    have "0 < previous_mean b" using nonneg nz' by (rule previous_mean_pos)
    from render_row_trend [OF dist ne nz' this, of label]
    show "\<exists>row. render_row label b = Inr row" by blast
  qed
qed

theorem render_row_zero_division_witness:
  "distinct (map fst all_previous_zero) \<and> nonneg_amounts all_previous_zero
   \<and> list_all (\<lambda>v. v = 0) (previous_totals all_previous_zero)
   \<and> render_row ''account'' all_previous_zero = Inl ZeroDivisionError
   \<and> render_row ''account'' [((2024, 4), 50)] = Inl ZeroDivisionError
   \<and> (\<exists>row. render_row ''account'' kano_pc = Inr row)"
proof -
  have lm: "latest_month all_previous_zero = (2024, 4)"
    by (simp add: all_previous_zero_def latest_month_def)
  have h1: "distinct (map fst all_previous_zero)" by (simp add: all_previous_zero_def)
  have h2: "nonneg_amounts all_previous_zero"
    by (simp add: all_previous_zero_def nonneg_amounts_def)
  have pt: "previous_totals all_previous_zero = [0, 0, 0]"
    unfolding previous_totals_def lm by (simp add: all_previous_zero_def)
  have z: "list_all (\<lambda>v. v = 0) (previous_totals all_previous_zero)" unfolding pt by simp
  have r1: "render_row ''account'' all_previous_zero = Inl ZeroDivisionError"
    using render_row_zero_division [OF h1 h2, of "''account''"] z
    by (simp add: all_previous_zero_def)
  have r2: "render_row ''account'' [((2024, 4), 50)] = Inl ZeroDivisionError"
    using render_row_zero_division [of "[((2024, 4), 50)]" "''account''"]
    by (simp add: nonneg_amounts_def)
  have lk: "latest_month kano_pc = (2024, 2)"
    by (simp add: kano_pc_def latest_month_def)
  have "[v \<leftarrow> previous_totals kano_pc. v \<noteq> 0] \<noteq> []"
    unfolding previous_totals_def lk by (simp add: kano_pc_def)
  then have r3: "\<exists>row. render_row ''account'' kano_pc = Inr row"
    using render_row_zero_division [of kano_pc "''account''"]
    by (simp add: kano_pc_def nonneg_amounts_def)
  from h1 h2 z r1 r2 r3 show ?thesis by blast
qed


definition at_105 :: bills where
  "at_105 = [((2024, 1), 100), ((2024, 2), 100), ((2024, 3), 100), ((2024, 4), 105)]"

definition at_9499 :: bills where
  "at_9499 = [((2024, 1), 100), ((2024, 2), 100), ((2024, 3), 100), ((2024, 4), 9499 / 100)]"

text \<open>
  Claim C2, as stated, fails at \<open>this_month = 105.00\<close>: with a previous average of 100 the
  test \<open>prev_month_average * 1.05 <= this_month_total\<close> holds, and the row is an increase of
  5 percent, not stable.
\<close>

theorem boundary_105_is_increase:
  "render_row ''account'' at_105
     = Inr [''account'', ''100.00'', ''105.00'', [], up_arrow @ up_arrow @ ''  5%'']"
  by (simp add: at_105_def row_eval fmt_eval)

text \<open>
  Claim C2, amended. For a row with previous average 100: a total of 94.99 is a decrease of
  5 percent; 95.00 is stable; 105.00 is an increase of 5 percent (the upper boundary is
  inclusive); 105.01 is an increase of 5 percent.
\<close>

theorem trend_boundaries:
  assumes dist: "distinct (map fst b)" and ne: "b \<noteq> []"
    and nz: "[v \<leftarrow> previous_totals b. v \<noteq> 0] \<noteq> []" and avg: "previous_mean b = 100"
  shows "(latest_total b = 9499 / 100 \<longrightarrow>
            render_row label b = Inr [label, ''100.00'', ''94.99'', down_arrow @ ''  5%'', []])
       \<and> (latest_total b = 95 \<longrightarrow>
            render_row label b = Inr [label, ''100.00'', ''95.00'', [], []])
       \<and> (latest_total b = 105 \<longrightarrow>
            render_row label b = Inr [label, ''100.00'', ''105.00'', [], up_arrow @ up_arrow @ ''  5%''])
       \<and> (latest_total b = 10501 / 100 \<longrightarrow>
            render_row label b = Inr [label, ''100.00'', ''105.01'', [], up_arrow @ up_arrow @ ''  5%''])"
proof -
  have nz': "nonzero_previous b \<noteq> []" using nz by (simp add: nonzero_previous_def)
  have pos: "0 < previous_mean b" using avg by simp
  note rr = render_row_trend [OF dist ne nz' pos, of label, unfolded avg]
  have p100: "pprint_currency (PFloat 100) = ''100.00''" by (simp add: fmt_eval)
  have c1: "render_row label b = Inr [label, ''100.00'', ''94.99'', down_arrow @ ''  5%'', []]"
    if "latest_total b = 9499 / 100"
    using rr unfolding that p100 by (simp add: fmt_eval fmt_2d_def str_int_def)
  have c2: "render_row label b = Inr [label, ''100.00'', ''95.00'', [], []]"
    if "latest_total b = 95"
    using rr unfolding that p100 by (simp add: fmt_eval)
  have c3: "render_row label b = Inr [label, ''100.00'', ''105.00'', [], up_arrow @ up_arrow @ ''  5%'']"
    if "latest_total b = 105"
    using rr unfolding that p100 by (simp add: fmt_eval fmt_2d_def str_int_def)
  have c4: "render_row label b = Inr [label, ''100.00'', ''105.01'', [], up_arrow @ up_arrow @ ''  5%'']"
    if "latest_total b = 10501 / 100"
    using rr unfolding that p100 by (simp add: fmt_eval fmt_2d_def str_int_def)
  from c1 c2 c3 c4 show ?thesis by blast
qed

theorem trend_boundaries_witness:
  "distinct (map fst at_9499) \<and> at_9499 \<noteq> []
   \<and> [v \<leftarrow> previous_totals at_9499. v \<noteq> 0] = [100, 100, 100]
   \<and> previous_mean at_9499 = 100 \<and> latest_total at_9499 = 9499 / 100
   \<and> render_row ''account'' at_9499
        = Inr [''account'', ''100.00'', ''94.99'', down_arrow @ ''  5%'', []]"
proof -
  have lm: "latest_month at_9499 = (2024, 4)"
    by (simp add: at_9499_def latest_month_def)
  have h1: "distinct (map fst at_9499)" by (simp add: at_9499_def)
  have h2: "at_9499 \<noteq> []" by (simp add: at_9499_def)
  have nz: "[v \<leftarrow> previous_totals at_9499. v \<noteq> 0] = [100, 100, 100]"
    unfolding previous_totals_def lm by (simp add: at_9499_def)
  have h3: "[v \<leftarrow> previous_totals at_9499. v \<noteq> 0] \<noteq> []" unfolding nz by simp
  have h4: "previous_mean at_9499 = 100"
    unfolding previous_mean_def nonzero_previous_def nz by simp
  have lt: "latest_total at_9499 = 9499 / 100"
    unfolding latest_total_def lm by (simp add: at_9499_def)
  have "render_row ''account'' at_9499
        = Inr [''account'', ''100.00'', ''94.99'', down_arrow @ ''  5%'', []]"
    using trend_boundaries [OF h1 h2 h3 h4, of "''account''"] lt by blast
  with h1 h2 nz h4 lt show ?thesis by blast
qed

section \<open>The query window\<close>

lemma months_before_4:
  assumes "1 \<le> m" "m \<le> 12"
  shows "months_before 4 (y, m) = (if 4 < m then (y, m - 4) else (y - 1, m + 8))"
proof -
  have "(y * 12 + (m - 1) - 4) div 12 = (if 4 < m then y else y - 1)"
    using assms by presburger
  moreover have "(y * 12 + (m - 1) - 4) mod 12 + 1 = (if 4 < m then m - 4 else m + 8)"
    using assms by presburger
  ultimately show ?thesis by (simp add: months_before_def Let_def)
qed

lemma time_period_start:
  assumes "time_period today = Inr (start, end)"
  shows "day start = 1 \<and> end = \<lparr>year = year today, month = month today, day = 1\<rparr>
       \<and> ((year start, month start) = months_before 4 (year today, month today)
            \<longleftrightarrow> month today \<notin> {1, 3, 4})"
proof -
  have m: "1 \<le> month today" "month today \<le> 12"
    using assms by (auto simp: time_period_def mk_date_def split: if_splits sum.splits)
  have e: "end = \<lparr>year = year today, month = month today, day = 1\<rparr>"
    using assms by (auto simp: time_period_def mk_date_def split: if_splits sum.splits)
  show ?thesis
  proof (cases "4 < month today")
    case True
    then have "start = \<lparr>year = year today, month = month today - 4, day = 1\<rparr>"
      using assms by (auto simp: time_period_def mk_date_def split: if_splits sum.splits)
    then show ?thesis using True e m by (simp add: months_before_4)
  next
    case False
    then have "start = \<lparr>year = year today - 1, month = 12 - month today, day = 1\<rparr>"
      using assms by (auto simp: time_period_def mk_date_def split: if_splits sum.splits)
    moreover have "12 - month today = month today + 8 \<longleftrightarrow> month today \<notin> {1, 3, 4}"
      using False m by auto
    ultimately show ?thesis using False e m by (simp add: months_before_4)
  qed
qed

text \<open>
  Claim C9. The start of the query window should be the first day of the month four
  calendar months before the current month. On a day in January 2024 the source computes
  1 November 2023, where four months before January 2024 is September 2023: the branch for the
  first four months of the year takes month \<open>12 - month\<close> where \<open>month + 8\<close> is meant.
\<close>

theorem time_period_january:
  "time_period \<lparr>year = 2024, month = 1, day = 15\<rparr>
     = Inr (\<lparr>year = 2023, month = 11, day = 1\<rparr>, \<lparr>year = 2024, month = 1, day = 1\<rparr>)
   \<and> months_before 4 (2024, 1) = (2023, 9)"
  by (simp add: time_period_def mk_date_def days_in_month_def is_leap_def months_before_def)

section \<open>The total row\<close>

lemma amount_at_add_to_month:
  "amount_at (add_to_month k x t) m = amount_at t m + (if k = m then x else 0)"
  by (simp add: amount_at_def add_to_month_def update_conv')

lemma keys_add_to_month: "fst ` set (add_to_month k x t) = insert k (fst ` set t)"
  by (simp add: add_to_month_def dom_update)

lemma distinct_add_to_month:
  "distinct (map fst t) \<Longrightarrow> distinct (map fst (add_to_month k x t))"
  by (simp add: add_to_month_def distinct_update)

lemma positive_filter:
  assumes "nonneg_amounts b"
  shows "[v \<leftarrow> map snd b. v > 0] = [v \<leftarrow> map snd b. v \<noteq> 0]"
proof -
  have "\<forall>v \<in> set (map snd b). 0 \<le> v"
    using assms by (auto simp: nonneg_amounts_def list_all_iff)
  then show ?thesis by (intro filter_cong) auto
qed

lemma add_months_spec:
  assumes "add_months b items t = Inr t'" and "nonneg_amounts b"
  shows "amount_at t' m
           = amount_at t m + sum_list (map (\<lambda>kv. backfilled b (snd kv)) (filter (\<lambda>kv. fst kv = m) items))"
    and "fst ` set t' = fst ` set t \<union> fst ` set items"
    and "distinct (map fst t) \<longrightarrow> distinct (map fst t')"
  using assms(1)
proof (induction items arbitrary: t)
  case Nil
  { case 1 then show ?case by simp }
  { case 2 then show ?case by simp }
  { case 3 then show ?case by simp }
next
  case (Cons kv items)
  obtain k a where kv: "kv = (k, a)" by (cases kv)
  have pf: "[v \<leftarrow> map snd b. v > 0] = [v \<leftarrow> map snd b. v \<noteq> 0]"
    by (rule positive_filter [OF assms(2)])
  { case 1
    then have rest: "add_months b items (add_to_month k (backfilled b a) t) = Inr t'"
      unfolding kv by (auto simp: backfilled_def average_def pf split: if_splits sum.splits)
    show ?case
      using Cons.IH(1) [OF rest] by (auto simp: kv amount_at_add_to_month) }
  { case 2
    then have rest: "add_months b items (add_to_month k (backfilled b a) t) = Inr t'"
      unfolding kv by (auto simp: backfilled_def average_def pf split: if_splits sum.splits)
    show ?case
      using Cons.IH(2) [OF rest] by (auto simp: kv keys_add_to_month) }
  { case 3
    then have rest: "add_months b items (add_to_month k (backfilled b a) t) = Inr t'"
      unfolding kv by (auto simp: backfilled_def average_def pf split: if_splits sum.splits)
    show ?case
      using Cons.IH(3) [OF rest] by (auto simp: distinct_add_to_month) }
qed

lemma sum_at_key:
  assumes "distinct (map fst xs)"
  shows "sum_list (map f (filter (\<lambda>kv. fst kv = m) xs))
           = (case map_of xs m of None \<Rightarrow> 0 | Some a \<Rightarrow> f (m, a))"
  using assms
proof (induction xs)
  case Nil
  then show ?case by simp
next
  case (Cons x xs)
  obtain k a where x: "x = (k, a)" by (cases x)
  show ?case
  proof (cases "k = m")
    case True
    then have "m \<notin> fst ` set xs" using Cons.prems x by auto
    then have "filter (\<lambda>kv. fst kv = m) xs = []" by (auto simp: filter_empty_conv)
    then show ?thesis using True x by simp
  next
    case False
    then show ?thesis using Cons x by simp
  qed
qed

lemma add_months_account:
  assumes "add_months b b t = Inr t'" and "account_bills b"
  shows "amount_at t' m = amount_at t m + contribution b m"
    and "fst ` set t' = fst ` set t \<union> fst ` set b"
    and "distinct (map fst t) \<longrightarrow> distinct (map fst t')"
proof -
  have nn: "nonneg_amounts b" and d: "distinct (map fst b)"
    using assms(2) by (auto simp: account_bills_def)
  show "amount_at t' m = amount_at t m + contribution b m"
    using add_months_spec(1) [OF assms(1) nn, of m] sum_at_key [OF d, of "\<lambda>kv. backfilled b (snd kv)" m]
    by (simp add: contribution_def split: option.splits)
  show "fst ` set t' = fst ` set t \<union> fst ` set b"
    by (rule add_months_spec(2) [OF assms(1) nn])
  show "distinct (map fst t) \<longrightarrow> distinct (map fst t')"
    by (rule add_months_spec(3) [OF assms(1) nn])
qed

lemma add_accounts_spec:
  assumes "add_accounts bd t = Inr t'" and "list_all (\<lambda>nb. account_bills (snd nb)) bd"
  shows "amount_at t' m = amount_at t m + spec_total bd m
       \<and> fst ` set t' = fst ` set t \<union> observed_months bd
       \<and> (distinct (map fst t) \<longrightarrow> distinct (map fst t'))"
  using assms
proof (induction bd arbitrary: t)
  case Nil
  then show ?case by (simp add: spec_total_def observed_months_def)
next
  case (Cons nb bd)
  obtain name b where nb: "nb = (name, b)" by (cases nb)
  from Cons.prems(1) obtain t1 where t1: "add_months b b t = Inr t1"
    and rest: "add_accounts bd t1 = Inr t'"
    unfolding nb by (auto split: sum.splits)
  have ab: "account_bills b" and abs: "list_all (\<lambda>nb. account_bills (snd nb)) bd"
    using Cons.prems(2) nb by auto
  note acc = add_months_account [OF t1 ab]
  note ih = Cons.IH [OF rest abs]
  show ?case
    using ih acc(1) [of m] acc(2) acc(3)
    by (auto simp: nb spec_total_def observed_months_def)
qed


definition two_accounts :: billing_data where
  "two_accounts =
     [(''A'', [((2024, 1), 10), ((2024, 2), 0), ((2024, 3), 10)]),
      (''B'', [((2024, 1), 5), ((2024, 2), 5), ((2024, 3), 5)])]"

lemma total_bills_spec:
  assumes "list_all (\<lambda>nb. account_bills (snd nb)) bd"
    and "add_accounts bd [] = Inr total_bills"
  shows "distinct (map fst total_bills)
       \<and> set (map fst total_bills) = observed_months bd
       \<and> (\<forall>m \<in> observed_months bd. map_of total_bills m = Some (spec_total bd m))"
proof -
  note s = add_accounts_spec [OF assms(2) assms(1)]
  have d: "distinct (map fst total_bills)" using s [of undefined] by simp
  have k: "set (map fst total_bills) = observed_months bd" using s [of undefined] by simp
  have "map_of total_bills m = Some (spec_total bd m)" if "m \<in> observed_months bd" for m
  proof -
    have "m \<in> fst ` set total_bills" using that k by simp
    then obtain v where v: "map_of total_bills m = Some v"
      by (metis domIff dom_map_of_conv_image_fst not_Some_eq)
    then have "amount_at total_bills m = v" by (simp add: amount_at_def)
    moreover have "amount_at total_bills m = spec_total bd m"
      using s [of m] by (simp add: amount_at_def)
    ultimately show ?thesis using v by simp
  qed
  with d k show ?thesis by blast
qed

text \<open>
  Claim C4. When every account's bills have distinct month keys and non-negative amounts,
  the total bills built by the table assembler have exactly the months observed across the
  accounts as keys, and map each of them to the sum, over the accounts, of the account's
  amount for the month, an amount of zero being replaced by the mean of the account's
  amounts that are not zero. For \<open>A = {Jan: 10, Feb: 0, Mar: 10}\<close> and
  \<open>B = {Jan: 5, Feb: 5, Mar: 5}\<close> the total for February is 15, not 5.
\<close>

theorem total_bills_backfilled_sums:
  "(list_all (\<lambda>nb. account_bills (snd nb)) bd \<and> add_accounts bd [] = Inr total_bills \<longrightarrow>
      distinct (map fst total_bills)
      \<and> set (map fst total_bills) = observed_months bd
      \<and> (\<forall>m \<in> observed_months bd. map_of total_bills m = Some (spec_total bd m)))
   \<and> add_accounts two_accounts [] = Inr [((2024, 1), 15), ((2024, 2), 15), ((2024, 3), 15)]"
proof (intro conjI impI)
  assume a: "list_all (\<lambda>nb. account_bills (snd nb)) bd \<and> add_accounts bd [] = Inr total_bills"
  then have a1: "list_all (\<lambda>nb. account_bills (snd nb)) bd"
    and a2: "add_accounts bd [] = Inr total_bills" by simp_all
  note t = total_bills_spec [OF a1 a2]
  show "distinct (map fst total_bills)" using t by blast
  show "set (map fst total_bills) = observed_months bd" using t by blast
  show "\<forall>m \<in> observed_months bd. map_of total_bills m = Some (spec_total bd m)" using t by blast
next
  show "add_accounts two_accounts [] = Inr [((2024, 1), 15), ((2024, 2), 15), ((2024, 3), 15)]"
    by (simp add: two_accounts_def average_def add_to_month_def)
qed

theorem total_bills_backfilled_sums_witness:
  "list_all (\<lambda>nb. account_bills (snd nb)) two_accounts
   \<and> add_accounts two_accounts [] = Inr [((2024, 1), 15), ((2024, 2), 15), ((2024, 3), 15)]
   \<and> (2024, 2) \<in> observed_months two_accounts
   \<and> spec_total two_accounts (2024, 2) = 15
   \<and> map_of ([((2024, 1), 15), ((2024, 2), 15), ((2024, 3), 15)] :: bills) (2024, 2)
        = Some (spec_total two_accounts (2024, 2))"
proof -
  have h1: "list_all (\<lambda>nb. account_bills (snd nb)) two_accounts"
    by (simp add: two_accounts_def account_bills_def nonneg_amounts_def)
  have h2: "add_accounts two_accounts [] = Inr [((2024, 1), 15), ((2024, 2), 15), ((2024, 3), 15)]"
    by (simp add: two_accounts_def average_def add_to_month_def)
  have o: "(2024, 2) \<in> observed_months two_accounts"
    by (simp add: two_accounts_def observed_months_def)
  have st: "spec_total two_accounts (2024, 2) = 15"
    by (simp add: two_accounts_def spec_total_def contribution_def backfilled_def)
  from total_bills_backfilled_sums
         [of two_accounts "[((2024, 1), 15), ((2024, 2), 15), ((2024, 3), 15)]"] h1 h2 o
  have "map_of ([((2024, 1), 15), ((2024, 2), 15), ((2024, 3), 15)] :: bills) (2024, 2)
        = Some (spec_total two_accounts (2024, 2))" by blast
  with h1 h2 o st show ?thesis by blast
qed

section \<open>The assembled table\<close>

lemma with_keys_spec:
  "with_keys rs = Inr krs \<Longrightarrow> map snd krs = rs \<and> (\<forall>kr \<in> set krs. row_key (snd kr) = Inr (fst kr))"
proof (induction rs arbitrary: krs)
  case Nil
  then show ?case by simp
next
  case (Cons r rs)
  from Cons.prems obtain k krs' where k: "row_key r = Inr k" and w: "with_keys rs = Inr krs'"
    and krs: "krs = (k, r) # krs'"
    by (auto split: sum.splits)
  from Cons.IH [OF w] k krs show ?case by simp
qed

lemma sorted_negated_descending:
  fixes ks :: "rat list"
  shows "sorted (map uminus ks) \<Longrightarrow> sorted (rev ks)"
  by (simp add: sorted_map sorted_wrt_rev)

lemma sorted_reverse_spec:
  assumes "sorted_reverse rows = Inr rows'"
  shows "\<exists>keys. mset rows' = mset rows \<and> map row_key rows' = map Inr keys \<and> sorted (rev keys)"
proof -
  from assms obtain krs where w: "with_keys rows = Inr krs"
    and r: "rows' = map snd (sort_key (\<lambda>kr. - fst kr) krs)"
    by (auto simp: sorted_reverse_def split: sum.splits)
  let ?s = "sort_key (\<lambda>kr. - fst kr) krs"
  note ws = with_keys_spec [OF w]
  have "mset rows' = image_mset snd (mset ?s)" unfolding r by simp
  also have "\<dots> = mset (map snd krs)" by simp
  finally have m: "mset rows' = mset rows" using ws by simp
  have "\<forall>kr \<in> set ?s. row_key (snd kr) = Inr (fst kr)" using ws by simp
  then have k: "map row_key rows' = map Inr (map fst ?s)" unfolding r by simp
  have "sorted (map (\<lambda>kr. - fst kr) ?s)" by (rule sorted_sort_key)
  then have "sorted (map uminus (map fst ?s))" by (simp add: comp_def)
  then have "sorted (rev (map fst ?s))" by (rule sorted_negated_descending)
  with m k show ?thesis by blast
qed

subsection \<open>The sort key reads the formatted amount back\<close>

lemma digit_val_nth: "i < 10 \<Longrightarrow> digit_val (''0123456789'' ! i) = i"
  by (auto simp: numeral_eq_Suc less_Suc_eq digit_val_def)

lemma digit_val_digit_char: "digit_val (digit_char k) = k mod 10"
  unfolding digit_char_def by (rule digit_val_nth) simp

lemma nat_of_digits_snoc: "nat_of_digits (ds @ [c]) = 10 * nat_of_digits ds + digit_val c"
  by (simp add: nat_of_digits_def)

lemma nat_of_digits_str_nat: "nat_of_digits (str_nat n) = n"
proof (induction n rule: str_nat.induct)
  case (1 n)
  show ?case
  proof (cases "n < 10")
    case True
    then show ?thesis
      by (subst str_nat.simps) (simp add: nat_of_digits_def digit_val_digit_char)
  next
    case False
    then have "nat_of_digits (str_nat n) = 10 * nat_of_digits (str_nat (n div 10)) + n mod 10"
      by (subst str_nat.simps) (simp add: nat_of_digits_snoc digit_val_digit_char)
    then show ?thesis using 1 False by simp
  qed
qed

lemma digit_not_comma: "is_digit c \<Longrightarrow> c \<noteq> CHR '',''"
  by (auto simp: is_digit_def)

lemma no_comma_digits: "\<forall>c \<in> set ds. is_digit c \<Longrightarrow> filter (\<lambda>c. c \<noteq> CHR '','') ds = ds"
  unfolding filter_id_conv using digit_not_comma by blast

lemma filter_comma_groups:
  "\<forall>c \<in> set ds. is_digit c \<Longrightarrow> filter (\<lambda>c. c \<noteq> CHR '','') (comma_groups ds) = ds"
proof (induction ds rule: comma_groups.induct)
  case (1 ds)
  show ?case
  proof (cases "length ds \<le> 3")
    case True
    then show ?thesis using "1.prems" by (subst comma_groups.simps) (simp add: no_comma_digits)
  next
    case False
    have a: "\<forall>c \<in> set (take (length ds - 3) ds). is_digit c"
      using "1.prems" by (meson in_set_takeD)
    have b: "\<forall>c \<in> set (drop (length ds - 3) ds). is_digit c"
      using "1.prems" by (meson in_set_dropD)
    have "filter (\<lambda>c. c \<noteq> CHR '','') (comma_groups ds)
        = take (length ds - 3) ds @ drop (length ds - 3) ds"
      using False "1.IH" [OF False a] no_comma_digits [OF b]
      by (subst comma_groups.simps) simp
    then show ?thesis by simp
  qed
qed

lemma py_float_numeral:
  assumes ip: "\<forall>c \<in> set ip. is_digit c" "ip \<noteq> []" and fp: "\<forall>c \<in> set fp. is_digit c"
    and sign: "sign = [] \<or> sign = ''-''"
  shows "py_float (sign @ ip @ ''.'' @ fp)
     = Inr ((if sign = ''-'' then - 1 else 1)
            * (of_nat (nat_of_digits ip) + of_nat (nat_of_digits fp) / 10 ^ length fp))"
proof -
  obtain d ip' where dcons: "ip = d # ip'" using ip(2) by (cases ip) auto
  have "is_digit d" using ip(1) dcons by simp
  then have dnm: "d \<noteq> CHR ''-''" by (auto simp: is_digit_def)
  have neg: "take 1 (sign @ ip @ ''.'' @ fp) = ''-'' \<longleftrightarrow> sign = ''-''"
    using sign dnm dcons by auto
  have body: "(if sign = ''-'' then drop 1 (sign @ ip @ ''.'' @ fp) else sign @ ip @ ''.'' @ fp)
      = ip @ ''.'' @ fp"
    using sign by auto
  have nd: "\<not> is_digit CHR ''.''" by (simp add: is_digit_def)
  have tw: "takeWhile is_digit (ip @ ''.'' @ fp) = ip"
    using ip(1) nd by (simp add: takeWhile_append2)
  have dw: "dropWhile is_digit (ip @ ''.'' @ fp) = ''.'' @ fp"
    using ip(1) nd by (simp add: dropWhile_append2)
  show ?thesis
    unfolding py_float_def Let_def neg body tw dw
    using ip(2) fp by (simp add: list_all_iff)
qed

lemma two_digits_value: "10 * (n div 10 mod 10) + n mod 10 = (n::nat) mod 100"
  using mod_mult2_eq [of n 10 10] by simp

lemma cents_split: "(of_nat (n div 100) :: rat) + of_nat (n mod 100) / 10 ^ 2 = of_nat n / 100"
proof -
  have "(of_nat n :: rat) = of_nat (100 * (n div 100) + n mod 100)" by simp
  also have "\<dots> = 100 * of_nat (n div 100) + of_nat (n mod 100)"
    by (simp only: of_nat_add of_nat_mult of_nat_numeral)
  finally show ?thesis by simp
qed

lemma row_key_pprint_currency:
  "py_float (filter (\<lambda>c. c \<noteq> CHR '','') (pprint_currency (PFloat v))) = Inr (two_decimals v)"
proof -
  define n where "n = round_half_even (\<bar>v\<bar> * 100)"
  define sign where "sign = (if v < 0 then ''-'' else [])"
  define ip where "ip = str_nat (n div 100)"
  define fp where "fp = [digit_char (n div 10), digit_char n]"
  have ipd: "\<forall>c \<in> set ip. is_digit c" unfolding ip_def by (rule str_nat_digits)
  have ipn: "ip \<noteq> []" unfolding ip_def by (rule str_nat_nonempty)
  have fpd: "\<forall>c \<in> set fp. is_digit c" by (simp add: fp_def is_digit_digit_char)
  have sg: "sign = [] \<or> sign = ''-''" by (simp add: sign_def)
  have shape: "pprint_currency (PFloat v) = sign @ comma_groups ip @ ''.'' @ fp"
    using pprint_currency_float [of v] by (simp add: Let_def n_def sign_def ip_def fp_def)
  have f1: "filter (\<lambda>c. c \<noteq> CHR '','') sign = sign" by (simp add: sign_def)
  have f2: "filter (\<lambda>c. c \<noteq> CHR '','') fp = fp" using fpd by (rule no_comma_digits)
  have plain: "filter (\<lambda>c. c \<noteq> CHR '','') (pprint_currency (PFloat v)) = sign @ ip @ ''.'' @ fp"
    unfolding shape by (simp add: f1 f2 filter_comma_groups [OF ipd])
  have vi: "nat_of_digits ip = n div 100" unfolding ip_def by (rule nat_of_digits_str_nat)
  have vf: "nat_of_digits fp = n mod 100"
    using two_digits_value [of n] by (simp add: fp_def nat_of_digits_def digit_val_digit_char)
  have lf: "length fp = 2" by (simp add: fp_def)
  have sv: "(if sign = ''-'' then - 1 else 1) = (if v < 0 then - 1 else (1::rat))"
    by (simp add: sign_def)
  have "py_float (sign @ ip @ ''.'' @ fp)
      = Inr ((if sign = ''-'' then - 1 else 1)
             * (of_nat (nat_of_digits ip) + of_nat (nat_of_digits fp) / 10 ^ length fp))"
    by (rule py_float_numeral [OF ipd ipn fpd sg])
  also have "\<dots> = Inr ((if v < 0 then - 1 else 1) * (of_nat n / 100))"
    unfolding vi vf lf sv cents_split ..
  finally show ?thesis unfolding plain two_decimals_def n_def .
qed

lemma row_key_render_row:
  assumes "render_row label b = Inr r"
  shows "row_key r = Inr (two_decimals (this_month_total b))"
proof -
  from assms have "length r = 5 \<and> r ! 2 = pprint_currency (PFloat (this_month_total b))"
    by (auto simp: render_row_def Let_def split: sum.splits if_splits)
  then show ?thesis by (simp add: row_key_def row_key_pprint_currency)
qed

lemma render_rows_spec:
  "render_rows bd = Inr rs \<Longrightarrow> list_all2 (\<lambda>nb r. render_row (fst nb) (snd nb) = Inr r) bd rs"
proof (induction bd arbitrary: rs)
  case Nil
  then show ?case by simp
next
  case (Cons nb bd)
  obtain name b where nb: "nb = (name, b)" by (cases nb)
  from Cons.prems obtain r rs' where "render_row name b = Inr r" "render_rows bd = Inr rs'"
    "rs = r # rs'"
    unfolding nb by (auto split: sum.splits)
  with Cons.IH nb show ?case by simp
qed


subsection \<open>The order of the rows\<close>

lemma table_structure:
  assumes "create_billing_table bd = Inr rows"
  shows "\<exists>rendered accounts keys total_bills total.
           list_all2 (\<lambda>nb r. render_row (fst nb) (snd nb) = Inr r
                        \<and> row_key r = Inr (two_decimals (this_month_total (snd nb)))) bd rendered
         \<and> mset accounts = mset rendered
         \<and> map row_key accounts = map Inr keys
         \<and> sorted (rev keys)
         \<and> add_accounts bd [] = Inr total_bills
         \<and> render_row ''TOTAL'' total_bills = Inr total
         \<and> rows = accounts @ [separator_row, total]"
proof -
  from assms obtain rendered rows' total_bills total where
    a: "render_rows bd = Inr rendered" and b: "sorted_reverse rendered = Inr rows'"
    and c: "add_accounts bd [] = Inr total_bills"
    and d: "render_row ''TOTAL'' total_bills = Inr total"
    and e: "rows = rows' @ [separator_row, total]"
    by (auto simp: create_billing_table_def split: sum.splits)
  have f: "list_all2 (\<lambda>nb r. render_row (fst nb) (snd nb) = Inr r
                        \<and> row_key r = Inr (two_decimals (this_month_total (snd nb)))) bd rendered"
    using render_rows_spec [OF a] by (rule list_all2_mono) (simp add: row_key_render_row)
  from sorted_reverse_spec [OF b] obtain keys where
    "mset rows' = mset rendered" "map row_key rows' = map Inr keys" "sorted (rev keys)"
    by blast
  with f c d e show ?thesis by blast
qed

lemmas key_eval = row_key_def py_float_def Let_def is_digit_def nat_of_digits_def digit_val_def

lemma three_rows_sorted:
  assumes "length r1 = 5" and "length r2 = 5" and "length r3 = 5"
    and "r1 ! 2 = ''1,200.00''" and "r2 ! 2 = ''50.00''" and "r3 ! 2 = ''999.99''"
  shows "\<forall>p \<in> set [[r1, r2, r3], [r1, r3, r2], [r2, r1, r3], [r2, r3, r1], [r3, r1, r2], [r3, r2, r1]].
           sorted_reverse p = Inr [r1, r3, r2]"
proof -
  have k1: "row_key r1 = Inr 1200" using assms(1,4) by (simp add: key_eval)
  have k2: "row_key r2 = Inr 50" using assms(2,5) by (simp add: key_eval)
  have k3: "row_key r3 = Inr (99999 / 100)" using assms(3,6) by (simp add: key_eval)
  show ?thesis by (simp add: sorted_reverse_def k1 k2 k3)
qed

text \<open>
  Claim C8. Whenever the table is built, its rows are the rendered account rows in some
  order, followed by the separator row and the TOTAL row. The account rows are in
  descending order of their sort keys; the key of a row is the number read back from its
  this-month cell after the commas are removed, which is the account's this-month total
  rounded to two decimals. Three rows of five cells whose this-month cells are \<open>1,200.00\<close>, \<open>50.00\<close> and
  \<open>999.99\<close> are sorted into the order 1,200.00, 999.99, 50.00 from each of their six
  input orders.
\<close>

theorem create_billing_table_order:
  "(create_billing_table bd = Inr rows \<longrightarrow>
      (\<exists>rendered accounts keys total_bills total.
           list_all2 (\<lambda>nb r. render_row (fst nb) (snd nb) = Inr r
                        \<and> row_key r = Inr (two_decimals (this_month_total (snd nb)))) bd rendered
         \<and> mset accounts = mset rendered
         \<and> map row_key accounts = map Inr keys
         \<and> sorted (rev keys)
         \<and> add_accounts bd [] = Inr total_bills
         \<and> render_row ''TOTAL'' total_bills = Inr total
         \<and> rows = accounts @ [separator_row, total]))
   \<and> (length r1 = 5 \<and> length r2 = 5 \<and> length r3 = 5
        \<and> r1 ! 2 = ''1,200.00'' \<and> r2 ! 2 = ''50.00'' \<and> r3 ! 2 = ''999.99'' \<longrightarrow>
        (\<forall>p \<in> set [[r1, r2, r3], [r1, r3, r2], [r2, r1, r3], [r2, r3, r1], [r3, r1, r2], [r3, r2, r1]].
           sorted_reverse p = Inr [r1, r3, r2]))"
  using table_structure [of bd rows] three_rows_sorted [of r1 r2 r3] by blast

subsection \<open>Three accounts in every order\<close>

definition big_bills :: bills where
  "big_bills = [((2024, 1), 1200), ((2024, 2), 1200)]"

definition small_bills :: bills where
  "small_bills = [((2024, 1), 50), ((2024, 2), 50)]"

definition mid_bills :: bills where
  "mid_bills = [((2024, 1), 99999 / 100), ((2024, 2), 99999 / 100)]"

definition big_row :: row where
  "big_row = [''big'', ''1,200.00'', ''1,200.00'', [], []]"

definition small_row :: row where
  "small_row = [''small'', ''50.00'', ''50.00'', [], []]"

definition mid_row :: row where
  "mid_row = [''mid'', ''999.99'', ''999.99'', [], []]"

definition total_row :: row where
  "total_row = [''TOTAL'', ''2,249.99'', ''2,249.99'', [], []]"

definition sorted_table :: "row list" where
  "sorted_table = [big_row, mid_row, small_row, separator_row, total_row]"

lemma render_big: "render_row ''big'' big_bills = Inr big_row"
  by (simp add: big_bills_def big_row_def row_eval fmt_eval)

lemma render_small: "render_row ''small'' small_bills = Inr small_row"
  by (simp add: small_bills_def small_row_def row_eval fmt_eval)

lemma render_mid: "render_row ''mid'' mid_bills = Inr mid_row"
  by (simp add: mid_bills_def mid_row_def row_eval fmt_eval)

lemma render_total:
  "render_row ''TOTAL'' [((2024, 1), 224999 / 100), ((2024, 2), 224999 / 100)] = Inr total_row"
  by (simp add: total_row_def row_eval fmt_eval)

lemma table_of_three:
  assumes "render_row n1 b1 = Inr r1" "render_row n2 b2 = Inr r2" "render_row n3 b3 = Inr r3"
    and "sorted_reverse [r1, r2, r3] = Inr rs"
    and "add_accounts [(n1, b1), (n2, b2), (n3, b3)] [] = Inr total_bills"
    and "render_row ''TOTAL'' total_bills = Inr total_r"
  shows "create_billing_table [(n1, b1), (n2, b2), (n3, b3)] = Inr (rs @ [separator_row, total_r])"
  using assms by (simp add: create_billing_table_def)

lemmas total_eval = big_bills_def small_bills_def mid_bills_def add_to_month_def

theorem create_billing_table_order_witness:
  "create_billing_table [(''big'', big_bills), (''small'', small_bills), (''mid'', mid_bills)]
     = Inr sorted_table
   \<and> create_billing_table [(''big'', big_bills), (''mid'', mid_bills), (''small'', small_bills)]
     = Inr sorted_table
   \<and> create_billing_table [(''small'', small_bills), (''big'', big_bills), (''mid'', mid_bills)]
     = Inr sorted_table
   \<and> create_billing_table [(''small'', small_bills), (''mid'', mid_bills), (''big'', big_bills)]
     = Inr sorted_table
   \<and> create_billing_table [(''mid'', mid_bills), (''big'', big_bills), (''small'', small_bills)]
     = Inr sorted_table
   \<and> create_billing_table [(''mid'', mid_bills), (''small'', small_bills), (''big'', big_bills)]
     = Inr sorted_table
   \<and> (\<exists>accounts keys total.
         map row_key accounts = map Inr keys \<and> sorted (rev keys)
         \<and> sorted_table = accounts @ [separator_row, total])"
proof -
  note inst = create_billing_table_order
    [of "[(''big'', big_bills), (''small'', small_bills), (''mid'', mid_bills)]" sorted_table
        big_row small_row mid_row]
  have cells: "length big_row = 5 \<and> length small_row = 5 \<and> length mid_row = 5
      \<and> big_row ! 2 = ''1,200.00'' \<and> small_row ! 2 = ''50.00'' \<and> mid_row ! 2 = ''999.99''"
    by (simp add: big_row_def small_row_def mid_row_def)
  from inst cells have s:
    "\<forall>p \<in> set [[big_row, small_row, mid_row], [big_row, mid_row, small_row],
                [small_row, big_row, mid_row], [small_row, mid_row, big_row],
                [mid_row, big_row, small_row], [mid_row, small_row, big_row]].
       sorted_reverse p = Inr [big_row, mid_row, small_row]"
    by blast
  have s1: "sorted_reverse [big_row, small_row, mid_row] = Inr [big_row, mid_row, small_row]"
    and s2: "sorted_reverse [big_row, mid_row, small_row] = Inr [big_row, mid_row, small_row]"
    and s3: "sorted_reverse [small_row, big_row, mid_row] = Inr [big_row, mid_row, small_row]"
    and s4: "sorted_reverse [small_row, mid_row, big_row] = Inr [big_row, mid_row, small_row]"
    and s5: "sorted_reverse [mid_row, big_row, small_row] = Inr [big_row, mid_row, small_row]"
    and s6: "sorted_reverse [mid_row, small_row, big_row] = Inr [big_row, mid_row, small_row]"
    using s by simp_all
  have t1: "create_billing_table [(''big'', big_bills), (''small'', small_bills), (''mid'', mid_bills)]
     = Inr sorted_table"
    by (subst table_of_three [OF render_big render_small render_mid s1 _ render_total])
       (simp_all add: total_eval sorted_table_def)
  have t2: "create_billing_table [(''big'', big_bills), (''mid'', mid_bills), (''small'', small_bills)]
     = Inr sorted_table"
    by (subst table_of_three [OF render_big render_mid render_small s2 _ render_total])
       (simp_all add: total_eval sorted_table_def)
  have t3: "create_billing_table [(''small'', small_bills), (''big'', big_bills), (''mid'', mid_bills)]
     = Inr sorted_table"
    by (subst table_of_three [OF render_small render_big render_mid s3 _ render_total])
       (simp_all add: total_eval sorted_table_def)
  have t4: "create_billing_table [(''small'', small_bills), (''mid'', mid_bills), (''big'', big_bills)]
     = Inr sorted_table"
    by (subst table_of_three [OF render_small render_mid render_big s4 _ render_total])
       (simp_all add: total_eval sorted_table_def)
  have t5: "create_billing_table [(''mid'', mid_bills), (''big'', big_bills), (''small'', small_bills)]
     = Inr sorted_table"
    by (subst table_of_three [OF render_mid render_big render_small s5 _ render_total])
       (simp_all add: total_eval sorted_table_def)
  have t6: "create_billing_table [(''mid'', mid_bills), (''small'', small_bills), (''big'', big_bills)]
     = Inr sorted_table"
    by (subst table_of_three [OF render_mid render_small render_big s6 _ render_total])
       (simp_all add: total_eval sorted_table_def)
  from inst t1
  have "\<exists>accounts keys total.
         map row_key accounts = map Inr keys \<and> sorted (rev keys)
         \<and> sorted_table = accounts @ [separator_row, total]"
    by blast
  with t1 t2 t3 t4 t5 t6 show ?thesis by blast
qed

end
